theory Spec2Isabelle
  imports Main "HOL-Library.Monad_Syntax"
begin

unbundle bit_operations_syntax

section \<open>Interfaces consumed by view.c\<close>

text \<open>
  The view engine of view.c reads the text buffer through the functions of text.h and
  text-motions.h and decodes bytes with the C library. Their code is not part of view.c,
  so the model takes them as data: a \<open>text_buf\<close> record carries the byte content of the
  buffer together with the operations whose results view.c only passes on (marks,
  character and line motions, bracket matching and the byte ranges of text-util.h), and a
  \<open>libc\<close> record carries \<open>mbrtowc\<close> and \<open>wcwidth\<close>.

  Every operation of the model returns an \<open>option\<close>. \<open>None\<close> means that the C function
  does not return a state of the model: a loop runs forever, or the code reads or writes
  outside a row's cell array, dereferences a null pointer or divides by zero.
\<close>

type_synonym mark = nat
type_synonym filepos = nat

text \<open>A \<open>Filerange\<close>: its \<open>start\<close> and its \<open>end\<close>.\<close>

type_synonym filerange = "filepos \<times> filepos"

text \<open>\<open>EPOS\<close> is \<open>(size_t)-1\<close>, the "no position" value of text.h.\<close>

definition EPOS :: filepos where
  "EPOS = 2 ^ 64 - 1"

record text_buf =
  content :: string
  mark_set :: "filepos \<Rightarrow> mark"
  mark_get :: "mark \<Rightarrow> filepos"
  char_next :: "filepos \<Rightarrow> filepos"
  char_prev :: "filepos \<Rightarrow> filepos"
  line_begin :: "filepos \<Rightarrow> filepos"
  lineno_by_pos :: "filepos \<Rightarrow> nat"
  bracket_match :: "filepos \<Rightarrow> filepos"
  range_new :: "filepos \<Rightarrow> filepos \<Rightarrow> filerange"
  range_empty :: filerange
  range_valid :: "filerange \<Rightarrow> bool"

text \<open>Modelled from the spec: \<open>size() -> bytes\<close> of the text buffer contract (text.c is
  not part of the sources).\<close>

definition text_size :: "text_buf \<Rightarrow> nat" where
  "text_size t = length (content t)"

text \<open>Modelled from the spec: \<open>bytes_get(pos, n, buf) -> actual\<close>, "copy up to n bytes
  starting at pos" (text.c is not part of the sources).\<close>

definition text_bytes_get :: "text_buf \<Rightarrow> filepos \<Rightarrow> nat \<Rightarrow> string" where
  "text_bytes_get t pos n = take n (drop pos (content t))"

text \<open>Modelled from the spec: the reverse byte iterator of the text buffer contract. An
  iterator is the byte offset it stands at; \<open>text_iterator_byte_get\<close> yields the byte
  there, \<open>text_iterator_byte_prev\<close> steps one byte back and yields the byte it reaches,
  and both fail (\<open>None\<close>, the C \<open>false\<close>) when there is no such byte.\<close>

definition text_iterator_byte_get :: "text_buf \<Rightarrow> filepos \<Rightarrow> char option" where
  "text_iterator_byte_get t i =
     (if i < length (content t) then Some (content t ! i) else None)"

definition text_iterator_byte_prev :: "text_buf \<Rightarrow> filepos \<Rightarrow> (filepos \<times> char) option" where
  "text_iterator_byte_prev t i =
     (if 0 < i \<and> i - 1 < length (content t) then Some (i - 1, content t ! (i - 1)) else None)"

text \<open>The result of \<open>mbrtowc\<close>: \<open>(size_t)-1\<close> with \<open>EILSEQ\<close>, \<open>(size_t)-2\<close>, \<open>0\<close>,
  or the number of bytes of the decoded character together with the character.\<close>

datatype mb_result = MB_ILSEQ | MB_INCOMPLETE | MB_NUL | MB_CHAR nat nat

type_synonym mbstate = nat

record libc =
  mbrtowc :: "mbstate \<Rightarrow> string \<Rightarrow> mb_result \<times> mbstate"
  wcwidth :: "nat \<Rightarrow> int"

text \<open>\<open>isprint\<close> on the bytes below 128, and the macro \<open>ISUTF8\<close> of util.h
  (\<open>((c) & 0xC0) != 0x80\<close>).\<close>

definition isprint :: "char \<Rightarrow> bool" where
  "isprint c = (32 \<le> (of_char c :: nat) \<and> (of_char c :: nat) \<le> 126)"

definition ISUTF8 :: "char \<Rightarrow> bool" where
  "ISUTF8 c = ((of_char c :: nat) AND 192 \<noteq> 128)"

text \<open>C arithmetic: \<open>/\<close> and \<open>%\<close> on \<open>int\<close> truncate towards zero and are undefined
  for a zero divisor; an \<open>int\<close> converted to \<open>size_t\<close> and the subtraction of two
  \<open>size_t\<close> wrap around modulo \<open>2^64\<close>.\<close>

definition c_div :: "int \<Rightarrow> int \<Rightarrow> int option" where
  "c_div a b = (if b = 0 then None else Some (sgn a * sgn b * (\<bar>a\<bar> div \<bar>b\<bar>)))"

definition c_mod :: "int \<Rightarrow> int \<Rightarrow> int option" where
  "c_mod a b = (if b = 0 then None else Some (a - b * (sgn a * sgn b * (\<bar>a\<bar> div \<bar>b\<bar>))))"

definition size_t_of_int :: "int \<Rightarrow> nat" where
  "size_t_of_int i = nat (i mod 2 ^ 64)"

definition size_t_sub :: "nat \<Rightarrow> nat \<Rightarrow> nat" where
  "size_t_sub a b = (if b \<le> a then a - b else a + 2 ^ 64 - b)"

section \<open>Data model\<close>

text \<open>
  \<open>Cell\<close> and \<open>Line\<close> are declared in view.h. A cell's \<open>data\<close> is the C string it holds
  (the bytes before the first NUL, so a cell whose first byte is NUL holds the empty
  string). The style handle \<open>attr\<close> and the flags \<open>cursor\<close> and \<open>selected\<close> are not
  stored, and the matching of syntax rules, which only computes \<open>attr\<close>, and the calls
  to the UI and to the event hook are left out. The code that sets the two flags is kept:
  setting a flag of \<open>line->cells[col]\<close> is the access to that cell (\<open>flag_cell\<close> below),
  which has no result outside the row.
\<close>

record cell =
  cell_data :: string
  cell_len :: nat
  cell_width :: int
  cell_istab :: bool

record line =
  line_lineno :: nat
  line_len :: nat
  line_width :: int
  line_cells :: "cell list"

text \<open>Modelled from the spec: the number of bytes of \<open>Cell.data\<close> ("up to 4 bytes of
  UTF-8 payload" and room for the terminator; view.h is not part of the sources).\<close>

definition CELL_DATA_SIZE :: nat where
  "CELL_DATA_SIZE = 8"

definition cell_unused :: cell where
  "cell_unused = \<lparr>cell_data = [], cell_len = 0, cell_width = 0, cell_istab = False\<rparr>"

definition cell_blank :: cell where
  "cell_blank = \<lparr>cell_data = '' '', cell_len = 0, cell_width = 0, cell_istab = False\<rparr>"

text \<open>Pointers to cursors and selections are addresses into two stores; pointers to
  screen lines are row numbers (the rows are one allocation, linked in row order by
  \<open>view_clear\<close>). \<open>None\<close> is the null pointer.\<close>

type_synonym cursor_ptr = nat
type_synonym selection_ptr = nat
type_synonym line_ptr = nat

record selection =
  sel_anchor :: mark
  sel_cursor :: mark
  sel_prev :: "selection_ptr option"
  sel_next :: "selection_ptr option"

record cursor =
  cur_pos :: filepos
  cur_row :: int
  cur_col :: int
  cur_lastcol :: int
  cur_line :: "line_ptr option"
  cur_mark :: mark
  cur_sel :: "selection_ptr option"
  cur_lastsel_anchor :: mark
  cur_lastsel_cursor :: mark
  cur_prev :: "cursor_ptr option"
  cur_next :: "cursor_ptr option"

text \<open>The symbol tables. \<open>view->symbols[i]\<close> points into \<open>symbols_none\<close>, into
  \<open>symbols_default\<close> or into the symbols of the attached syntax; the indices are
  those of syntax.h: space, tab, tab fill, end of line, end of file.\<close>

datatype symbol_ptr = Symbols_none nat | Symbols_default nat | Syntax_symbols nat

definition SYNTAX_SYMBOL_SPACE :: nat where "SYNTAX_SYMBOL_SPACE = 0"
definition SYNTAX_SYMBOL_TAB :: nat where "SYNTAX_SYMBOL_TAB = 1"
definition SYNTAX_SYMBOL_TAB_FILL :: nat where "SYNTAX_SYMBOL_TAB_FILL = 2"
definition SYNTAX_SYMBOL_EOL :: nat where "SYNTAX_SYMBOL_EOL = 3"
definition SYNTAX_SYMBOL_EOF :: nat where "SYNTAX_SYMBOL_EOF = 4"
definition SYNTAX_SYMBOL_LAST :: nat where "SYNTAX_SYMBOL_LAST = 5"

definition symbols_none :: "string list" where
  "symbols_none = ['' '', '' '', '' '', '' '', ''~'']"

definition symbols_default :: "string list" where
  "symbols_default =
     [[CHR 0xC2, CHR 0xB7], [CHR 0xE2, CHR 0x96, CHR 0xB6], '' '',
      [CHR 0xE2, CHR 0x8F, CHR 0x8E], ''~'']"

text \<open>Of a syntax definition the view reads the optional symbol overrides only
  (\<open>syntax->symbols[i].symbol\<close>, null when there is none).\<close>

record syntax_def =
  syn_symbols :: "nat \<Rightarrow> string option"

record view =
  v_text :: text_buf
  v_ui :: bool
  v_width :: int
  v_height :: int
  v_start :: filepos
  v_end :: filepos
  v_start_last :: filepos
  v_start_mark :: mark
  v_lines :: "line list"
  v_lastline :: line_ptr
  v_cursor :: "cursor_ptr option"
  v_line :: "line_ptr option"
  v_col :: int
  v_syntax :: "syntax_def option"
  v_symbols :: "nat \<Rightarrow> symbol_ptr"
  v_tabwidth :: int
  v_cursors :: "cursor_ptr option"
  v_selections :: "selection_ptr option"
  cursor_mem :: "cursor_ptr \<Rightarrow> cursor option"
  selection_mem :: "selection_ptr \<Rightarrow> selection option"

text \<open>\<open>v_lines\<close> holds the rows that \<open>view_clear\<close> links: \<open>topline\<close> is row 0,
  \<open>bottomline\<close> the last row, and the \<open>next\<close> of a row is the row below it.\<close>

definition topline :: "view \<Rightarrow> line_ptr" where
  "topline v = 0"

definition bottomline :: "view \<Rightarrow> line_ptr" where
  "bottomline v = length (v_lines v) - 1"

definition line_next :: "view \<Rightarrow> line_ptr \<Rightarrow> line_ptr option" where
  "line_next v r = (if Suc r < length (v_lines v) then Some (Suc r) else None)"

definition line_prev :: "view \<Rightarrow> line_ptr \<Rightarrow> line_ptr option" where
  "line_prev v r = (if 0 < r then Some (r - 1) else None)"

text \<open>Reading and writing through a row pointer, and reading and writing a cell of a
  row: outside the rows and outside the cells of a row there is no result.\<close>

definition line_get :: "view \<Rightarrow> line_ptr \<Rightarrow> line option" where
  "line_get v r = (if r < length (v_lines v) then Some (v_lines v ! r) else None)"

definition line_put :: "view \<Rightarrow> line_ptr \<Rightarrow> line \<Rightarrow> view option" where
  "line_put v r l =
     (if r < length (v_lines v) then Some (v\<lparr>v_lines := (v_lines v)[r := l]\<rparr>) else None)"

definition cell_get :: "line \<Rightarrow> int \<Rightarrow> cell option" where
  "cell_get l i =
     (if 0 \<le> i \<and> nat i < length (line_cells l) then Some (line_cells l ! nat i) else None)"

definition cell_put :: "line \<Rightarrow> int \<Rightarrow> cell \<Rightarrow> line option" where
  "cell_put l i c =
     (if 0 \<le> i \<and> nat i < length (line_cells l)
      then Some (l\<lparr>line_cells := (line_cells l)[nat i := c]\<rparr>) else None)"

text \<open>The symbol string behind \<open>view->symbols[i]->symbol\<close>.\<close>

definition symbol_of :: "view \<Rightarrow> nat \<Rightarrow> string option" where
  "symbol_of v i =
     (case v_symbols v i of
        Symbols_none j \<Rightarrow> Some (symbols_none ! j)
      | Symbols_default j \<Rightarrow> Some (symbols_default ! j)
      | Syntax_symbols j \<Rightarrow> (case v_syntax v of None \<Rightarrow> None | Some s \<Rightarrow> syn_symbols s j))"

text \<open>\<open>strncpy(dst, src, n)\<close> into a cell's data, read back as a C string.\<close>

definition strncpy :: "string \<Rightarrow> nat \<Rightarrow> string" where
  "strncpy src n = take n src"

section \<open>Drawing: \<open>view_addch\<close>\<close>

definition data0 :: "cell \<Rightarrow> char" where
  "data0 c = (case cell_data c of [] \<Rightarrow> CHR 0x00 | x # _ \<Rightarrow> x)"

text \<open>\<open>view->line = view->line->next; view->col = 0;\<close> and, when there is a next row,
  \<open>view->line->lineno = lineno\<close>.\<close>

definition row_advance :: "view \<Rightarrow> line_ptr \<Rightarrow> nat \<Rightarrow> view option" where
  "row_advance v r lineno =
     (case line_next v r of
        None \<Rightarrow> Some (v\<lparr>v_line := None, v_col := 0\<rparr>)
      | Some r' \<Rightarrow> do {
          l' \<leftarrow> line_get v r';
          line_put (v\<lparr>v_line := Some r', v_col := 0\<rparr>) r' (l'\<lparr>line_lineno := lineno\<rparr>)
        })"

text \<open>\<open>for (i = ...; i < width; i++) line->cells[i] = cell_blank;\<close>\<close>

function blank_cells :: "line \<Rightarrow> int \<Rightarrow> int \<Rightarrow> line option" where
  "blank_cells l i width =
     (if i < width then do { l' \<leftarrow> cell_put l i cell_blank; blank_cells l' (i + 1) width }
      else Some l)"
  by pat_completeness auto
termination
  by (relation "measure (\<lambda>(l, i, width). nat (width - i))") auto

declare blank_cells.simps [simp del]

text \<open>\<open>for (int i = 1; i < cell->width; i++) view->line->cells[view->col++] = cell_unused;\<close>\<close>

function unused_cells :: "line \<Rightarrow> int \<Rightarrow> int \<Rightarrow> int \<Rightarrow> (line \<times> int) option" where
  "unused_cells l col i width =
     (if i < width then do { l' \<leftarrow> cell_put l col cell_unused; unused_cells l' (col + 1) (i + 1) width }
      else Some (l, col))"
  by pat_completeness auto
termination
  by (relation "measure (\<lambda>(l, col, i, width). nat (width - i))") auto

declare unused_cells.simps [simp del]

text \<open>The loop of the tab case, from iteration \<open>w\<close> on. The result is the returned flag,
  the view and the cell behind the pointer \<open>cell\<close>.\<close>

function addch_tab :: "view \<Rightarrow> cell \<Rightarrow> nat \<Rightarrow> int \<Rightarrow> int \<Rightarrow> (bool \<times> view \<times> cell) option" where
  "addch_tab v cell lineno w width =
     (if w < width then do {
        r \<leftarrow> v_line v;
        v1 \<leftarrow> (if v_col v + 1 > v_width v then row_advance v r lineno else Some v);
        (case v_line v1 of
           None \<Rightarrow> Some (False, v1, cell)
         | Some r1 \<Rightarrow> do {
             sym \<leftarrow> symbol_of v1 (if w = 0 then SYNTAX_SYMBOL_TAB else SYNTAX_SYMBOL_TAB_FILL);
             let cell1 = cell\<lparr>cell_len := (if w = 0 then 1 else 0),
                             cell_data := strncpy sym (CELL_DATA_SIZE - 1)\<rparr>;
             l \<leftarrow> line_get v1 r1;
             l1 \<leftarrow> cell_put l (v_col v1) cell1;
             v2 \<leftarrow> line_put v1 r1 (l1\<lparr>line_len := line_len l1 + cell_len cell1,
                                       line_width := line_width l1 + cell_width cell1\<rparr>);
             addch_tab (v2\<lparr>v_col := v_col v2 + 1\<rparr>) cell1 lineno (w + 1) width
           })
      } else Some (True, v, cell\<lparr>cell_len := 1\<rparr>))"
  by pat_completeness auto
termination
  by (relation "measure (\<lambda>(v, cell, lineno, w, width). nat (width - w))") auto

declare addch_tab.simps [simp del]

definition addch_newline :: "view \<Rightarrow> cell \<Rightarrow> line_ptr \<Rightarrow> nat \<Rightarrow> (bool \<times> view \<times> cell) option" where
  "addch_newline v cell0 r lineno = do {
     let cell = cell0\<lparr>cell_width := 1\<rparr>;
     v1 \<leftarrow> (if v_col v + cell_width cell > v_width v then row_advance v r lineno else Some v);
     (case v_line v1 of
        None \<Rightarrow> Some (False, v1, cell)
      | Some r1 \<Rightarrow> do {
          sym \<leftarrow> symbol_of v1 SYNTAX_SYMBOL_EOL;
          let cell1 = cell\<lparr>cell_data := strncpy sym (CELL_DATA_SIZE - 1)\<rparr>;
          l \<leftarrow> line_get v1 r1;
          l1 \<leftarrow> cell_put l (v_col v1) cell1;
          l2 \<leftarrow> blank_cells (l1\<lparr>line_len := line_len l1 + cell_len cell1,
                                 line_width := line_width l1 + cell_width cell1\<rparr>)
                  (v_col v1 + 1) (v_width v1);
          v2 \<leftarrow> line_put v1 r1 l2;
          v3 \<leftarrow> row_advance v2 r1 (lineno + 1);
          Some (True, v3, cell1)
        })
   }"

definition addch_default :: "view \<Rightarrow> cell \<Rightarrow> line_ptr \<Rightarrow> nat \<Rightarrow> (bool \<times> view \<times> cell) option" where
  "addch_default v cell0 r lineno = do {
     let cell1 = (if (of_char (data0 cell0) :: nat) < 128 \<and> \<not> isprint (data0 cell0)
                  then \<lparr>cell_data = [CHR ''^'', char_of ((of_char (data0 cell0) :: nat) + 64)],
                        cell_len = 1, cell_width = 2, cell_istab = False\<rparr>
                  else cell0);
     cell \<leftarrow> (if data0 cell1 = CHR '' ''
              then do { sym \<leftarrow> symbol_of v SYNTAX_SYMBOL_SPACE;
                        Some (cell1\<lparr>cell_data := strncpy sym (CELL_DATA_SIZE - 1)\<rparr>) }
              else Some cell1);
     v1 \<leftarrow> (if v_col v + cell_width cell > v_width v
            then do {
              l \<leftarrow> line_get v r;
              l' \<leftarrow> blank_cells l (v_col v) (v_width v);
              v' \<leftarrow> line_put v r l';
              Some (v'\<lparr>v_line := line_next v' r, v_col := 0\<rparr>) }
            else Some v);
     (case v_line v1 of
        None \<Rightarrow> Some (False, v1, cell)
      | Some r1 \<Rightarrow> do {
          l \<leftarrow> line_get v1 r1;
          l1 \<leftarrow> cell_put (l\<lparr>line_width := line_width l + cell_width cell,
                              line_len := line_len l + cell_len cell,
                              line_lineno := lineno\<rparr>) (v_col v1) cell;
          (l2, col2) \<leftarrow> unused_cells l1 (v_col v1 + 1) 1 (cell_width cell);
          v2 \<leftarrow> line_put v1 r1 l2;
          Some (True, v2\<lparr>v_col := col2\<rparr>, cell)
        })
   }"

definition view_addch :: "view \<Rightarrow> cell \<Rightarrow> (bool \<times> view \<times> cell) option" where
  "view_addch v cell =
     (case v_line v of
        None \<Rightarrow> Some (False, v, cell)
      | Some r \<Rightarrow> do {
          l \<leftarrow> line_get v r;
          let lineno = line_lineno l;
          if data0 cell = CHR 0x09 then do {
            m \<leftarrow> c_mod (v_col v) (v_tabwidth v);
            addch_tab v (cell\<lparr>cell_istab := True, cell_width := 1\<rparr>) lineno 0 (v_tabwidth v - m) }
          else if data0 cell = CHR 0x0A then addch_newline v cell r lineno
          else addch_default v cell r lineno
        })"

section \<open>Drawing: \<open>view_clear\<close>, \<open>view_coord_get\<close> and \<open>view_draw\<close>\<close>

text \<open>\<open>view_clear\<close> binds or resolves the start mark (\<open>start_sync\<close>, the first
  statement of the function), numbers the top row and relinks the \<open>view->height\<close>
  rows of the grid, resetting the \<open>len\<close> and \<open>width\<close> of each. The rows of the
  model are the rows this loop links, so there is no result when the view has no row
  or \<open>v_lines\<close> does not hold \<open>view->height\<close> rows.\<close>

definition start_sync :: "view \<Rightarrow> view" where
  "start_sync v =
     (if v_start v \<noteq> v_start_last v
      then v\<lparr>v_start_mark := mark_set (v_text v) (v_start v), v_start_last := v_start v\<rparr>
      else (let start = mark_get (v_text v) (v_start_mark v)
            in if start \<noteq> EPOS then v\<lparr>v_start := start\<rparr> else v))"

definition view_clear :: "view \<Rightarrow> view option" where
  "view_clear v =
     (let v1 = start_sync v
      in if v_height v1 \<le> 0 \<or> length (v_lines v1) \<noteq> nat (v_height v1) then None
         else do {
           top \<leftarrow> line_get v1 (topline v1);
           v2 \<leftarrow> line_put v1 (topline v1)
                   (top\<lparr>line_lineno := lineno_by_pos (v_text v1) (v_start v1)\<rparr>);
           Some (v2\<lparr>v_lastline := topline v2,
                    v_lines := map (\<lambda>l. l\<lparr>line_width := 0, line_len := 0\<rparr>) (v_lines v2),
                    v_line := Some (topline v2),
                    v_col := 0\<rparr>)
         })"

text \<open>The row walk of \<open>view_coord_get\<close>.\<close>

function coord_row ::
  "view \<Rightarrow> filepos \<Rightarrow> line_ptr option \<Rightarrow> filepos \<Rightarrow> int \<Rightarrow> (line_ptr option \<times> filepos \<times> int) option" where
  "coord_row v pos ln cur row =
     (case ln of
        None \<Rightarrow> Some (None, cur, row)
      | Some r \<Rightarrow>
          if r \<noteq> v_lastline v \<and> cur < pos then do {
            l \<leftarrow> line_get v r;
            if cur + line_len l > pos then Some (ln, cur, row)
            else coord_row v pos (line_next v r) (cur + line_len l) (row + 1)
          } else Some (ln, cur, row))"
  by pat_completeness auto
termination
  by (relation "measure (\<lambda>(v, pos, ln, cur, row).
        case ln of None \<Rightarrow> 0 | Some r \<Rightarrow> Suc (length (v_lines v) - r))")
     (auto simp: line_next_def line_get_def split: if_splits)

declare coord_row.simps [simp del]

text \<open>\<open>while (++col < max_col && line->cells[col].len == 0);\<close> with \<open>col\<close> already
  incremented once.\<close>

function coord_skip :: "line \<Rightarrow> int \<Rightarrow> int \<Rightarrow> int option" where
  "coord_skip l col max_col =
     (if col < max_col then do {
        c \<leftarrow> cell_get l col;
        if cell_len c = 0 then coord_skip l (col + 1) max_col else Some col
      } else Some col)"
  by pat_completeness auto
termination
  by (relation "measure (\<lambda>(l, col, max_col). nat (max_col - col))") auto

declare coord_skip.simps [simp del]

lemma coord_skip_ge: "coord_skip l col max_col = Some col' \<Longrightarrow> col \<le> col'"
proof (induction l col max_col rule: coord_skip.induct)
  case (1 l col max_col)
  note unfold = coord_skip.simps [of l col max_col]
  show ?case
  proof (cases "col < max_col")
    case False
    with "1.prems" unfold show ?thesis by simp
  next
    case True
    then obtain c where c: "cell_get l col = Some c"
      using "1.prems" unfold by (cases "cell_get l col") simp_all
    show ?thesis
    proof (cases "cell_len c = 0")
      case True
      with \<open>col < max_col\<close> c "1.prems" unfold
      have "coord_skip l (col + 1) max_col = Some col'"
        by simp
      with "1.IH" [OF \<open>col < max_col\<close> c True] show ?thesis by simp
    next
      case False
      with \<open>col < max_col\<close> c "1.prems" unfold show ?thesis by simp
    qed
  qed
qed

function coord_col :: "line \<Rightarrow> filepos \<Rightarrow> filepos \<Rightarrow> int \<Rightarrow> int \<Rightarrow> int option" where
  "coord_col l pos cur col max_col =
     (if cur < pos \<and> col < max_col then do {
        c \<leftarrow> cell_get l col;
        col' \<leftarrow> coord_skip l (col + 1) max_col;
        coord_col l pos (cur + cell_len c) col' max_col
      } else Some col)"
  by pat_completeness auto
termination
  by (relation "measure (\<lambda>(l, pos, cur, col, max_col). nat (max_col - col))")
     (auto dest!: coord_skip_ge)

declare coord_col.simps [simp del]

text \<open>The result is the returned flag and the values stored through \<open>retline\<close>,
  \<open>retrow\<close> and \<open>retcol\<close>.\<close>

definition view_coord_get :: "view \<Rightarrow> filepos \<Rightarrow> (bool \<times> line_ptr option \<times> int \<times> int) option" where
  "view_coord_get v pos =
     (if pos < v_start v \<or> pos > v_end v then Some (False, None, -1, -1)
      else do {
        (ln, cur, row) \<leftarrow> coord_row v pos (Some (topline v)) (v_start v) 0;
        (case ln of
           Some r \<Rightarrow> do {
             l \<leftarrow> line_get v r;
             col \<leftarrow> coord_col l pos cur 0 (min (v_width v) (line_width l));
             Some (True, Some r, row, col)
           }
         | None \<Rightarrow> Some (True, Some (bottomline v), v_height v - 1, 0))
      })"

text \<open>\<open>for (len = 1; rem > len && !ISUTF8(cur[len]); len++);\<close>\<close>

function ilseq_len :: "string \<Rightarrow> nat \<Rightarrow> nat" where
  "ilseq_len rm len =
     (if length rm > len \<and> \<not> ISUTF8 (rm ! len) then ilseq_len rm (len + 1) else len)"
  by pat_completeness auto
termination
  by (relation "measure (\<lambda>(rm, len). length rm - len)") auto

declare ilseq_len.simps [simp del]

text \<open>The cell that one pass of the loop of \<open>view_draw\<close> builds from the result of
  \<open>mbrtowc\<close> on the unread bytes \<open>rm\<close> (\<open>cur\<close> up to \<open>cur + rem\<close>), before
  \<open>view_addch\<close> sees it.\<close>

definition draw_cell :: "libc \<Rightarrow> mb_result \<Rightarrow> string \<Rightarrow> cell" where
  "draw_cell L res rm =
     (let cell =
        (case res of
           MB_ILSEQ \<Rightarrow> \<lparr>cell_data = [CHR 0xEF, CHR 0xBF, CHR 0xBD], cell_len = ilseq_len rm 1,
                        cell_width = 1, cell_istab = False\<rparr>
         | MB_NUL \<Rightarrow> \<lparr>cell_data = [], cell_len = 1, cell_width = 0, cell_istab = False\<rparr>
         | MB_CHAR len wchar \<Rightarrow>
             \<lparr>cell_data = take len rm, cell_len = len,
              cell_width = (if wcwidth L wchar = - 1 then 1 else wcwidth L wchar),
              cell_istab = False\<rparr>
         | MB_INCOMPLETE \<Rightarrow> cell_unused)
      in if rm ! 0 = CHR 0x0D \<and> length rm > 1 \<and> rm ! 1 = CHR 0x0A
         then \<lparr>cell_data = [CHR 0x0A], cell_len = 2, cell_width = 1, cell_istab = False\<rparr>
         else cell)"

text \<open>The loop \<open>while (rem > 0)\<close> of \<open>view_draw\<close>. It need not end: when \<open>mbrtowc\<close>
  reports an incomplete sequence the buffer is read again from the same position.\<close>

partial_function (option) draw_loop ::
  "libc \<Rightarrow> nat \<Rightarrow> view \<Rightarrow> filepos \<Rightarrow> string \<Rightarrow> mbstate \<Rightarrow> (view \<times> filepos) option" where
  "draw_loop L text_len v pos rm st =
     (if rm = [] then Some (v, pos)
      else if fst (mbrtowc L st rm) = MB_INCOMPLETE
        then draw_loop L text_len v pos (text_bytes_get (v_text v) pos text_len)
               (snd (mbrtowc L st rm))
      else do {
        r \<leftarrow> view_addch v (draw_cell L (fst (mbrtowc L st rm)) rm);
        if \<not> fst r then Some (fst (snd r), pos)
        else if cell_len (snd (snd r)) > length rm then None
        else draw_loop L text_len (fst (snd r)) (pos + cell_len (snd (snd r)))
               (drop (cell_len (snd (snd r))) rm) (snd (mbrtowc L st rm))
      })"

declare draw_loop.simps [code]

text \<open>The rows below \<open>lastline\<close>: the end-of-file symbol in column 0, blanks after it,
  \<open>width = 1\<close> and \<open>len = 0\<close>.\<close>

function eof_lines :: "view \<Rightarrow> line_ptr option \<Rightarrow> view option" where
  "eof_lines v ln =
     (case ln of
        None \<Rightarrow> Some v
      | Some r \<Rightarrow>
          (case do {
                  l \<leftarrow> line_get v r;
                  sym \<leftarrow> symbol_of v SYNTAX_SYMBOL_EOF;
                  c0 \<leftarrow> cell_get l 0;
                  l1 \<leftarrow> cell_put l 0 (c0\<lparr>cell_data := strncpy sym CELL_DATA_SIZE\<rparr>);
                  l2 \<leftarrow> blank_cells l1 1 (v_width v);
                  Some (v\<lparr>v_lines := (v_lines v)[r := l2\<lparr>line_width := 1, line_len := 0\<rparr>]\<rparr>)
                } of
             None \<Rightarrow> None
           | Some v' \<Rightarrow> eof_lines v' (line_next v' r)))"
  by pat_completeness auto
termination
  by (relation "measure (\<lambda>(v, ln).
        case ln of None \<Rightarrow> 0 | Some r \<Rightarrow> Suc (length (v_lines v) - r))")
     (auto simp: line_next_def line_get_def split: if_splits bind_splits)

declare eof_lines.simps [simp del]

definition view_cursors_pos :: "view \<Rightarrow> cursor \<Rightarrow> filepos" where
  "view_cursors_pos v c = mark_get (v_text v) (cur_mark c)"

text \<open>What \<open>view_draw\<close> and \<open>cursor_to\<close> store in a cursor after \<open>view_coord_get\<close>
  returned \<open>g\<close>: the \<open>line\<close>, \<open>row\<close> and \<open>col\<close> that \<open>view_coord_get\<close> wrote,
  and the top left corner for the primary cursor when the position is not visible.\<close>

definition project_cursor ::
  "view \<Rightarrow> cursor_ptr \<Rightarrow> cursor \<Rightarrow> bool \<times> line_ptr option \<times> int \<times> int \<Rightarrow> cursor" where
  "project_cursor v p c g =
     (let c1 = c\<lparr>cur_line := fst (snd g), cur_row := fst (snd (snd g)),
                 cur_col := snd (snd (snd g))\<rparr>
      in if \<not> fst g \<and> v_cursor v = Some p
         then c1\<lparr>cur_line := Some (topline v), cur_row := 0, cur_col := 0\<rparr>
         else c1)"

text \<open>\<open>line->cells[col].cursor = true\<close> and \<open>line->cells[col].selected = true\<close>: the
  row and the cell must exist.\<close>

definition flag_cell :: "view \<Rightarrow> line_ptr option \<Rightarrow> int \<Rightarrow> unit option" where
  "flag_cell v ln col = do {
     r \<leftarrow> ln;
     l \<leftarrow> line_get v r;
     c \<leftarrow> cell_get l col;
     Some ()
   }"

text \<open>\<open>view_selections_get\<close>: the range between the two marks of a selection, the empty
  range for the null pointer.\<close>

definition view_selections_get :: "view \<Rightarrow> selection_ptr option \<Rightarrow> filerange option" where
  "view_selections_get v sp =
     (case sp of
        None \<Rightarrow> Some (range_empty (v_text v))
      | Some p \<Rightarrow> do {
          s \<leftarrow> selection_mem v p;
          Some (range_new (v_text v) (mark_get (v_text v) (sel_anchor s))
                  (mark_get (v_text v) (sel_cursor s)))
        })"

text \<open>\<open>while (col < end) l->cells[col++].selected = true;\<close>\<close>

function sel_cols :: "view \<Rightarrow> line_ptr \<Rightarrow> int \<Rightarrow> int \<Rightarrow> unit option" where
  "sel_cols v r col e =
     (if col < e then do {
        u \<leftarrow> flag_cell v (Some r) col;
        sel_cols v r (col + 1) e
      } else Some ())"
  by pat_completeness auto
termination
  by (relation "measure (\<lambda>(v, r, col, e). nat (e - col))") auto

declare sel_cols.simps [simp del]

text \<open>\<open>for (Line *l = start_line; l != end_line->next; l = l->next)\<close>: the rows of a
  selection, from \<open>start_col\<close> on the first one up to \<open>end_col\<close> on the last one.\<close>

function sel_rows ::
  "view \<Rightarrow> line_ptr option \<Rightarrow> line_ptr \<Rightarrow> int \<Rightarrow> line_ptr \<Rightarrow> int \<Rightarrow> unit option" where
  "sel_rows v ln start_line start_col end_line end_col =
     (if ln = line_next v end_line then Some ()
      else (case ln of
              None \<Rightarrow> None
            | Some r \<Rightarrow> do {
                l \<leftarrow> line_get v r;
                u \<leftarrow> sel_cols v r (if r = start_line then start_col else 0)
                       (if r = end_line then end_col else line_width l);
                sel_rows v (line_next v r) start_line start_col end_line end_col
              }))"
  by pat_completeness auto
termination
  by (relation "measure (\<lambda>(v, ln, start_line, start_col, end_line, end_col).
        case ln of None \<Rightarrow> 0 | Some r \<Rightarrow> Suc (length (v_lines v) - r))")
     (auto simp: line_next_def line_get_def split: if_splits)

declare sel_rows.simps [simp del]

text \<open>The body of the loop over the selections in \<open>view_draw\<close>, for the selection at
  \<open>p\<close>: both ends of a valid range are located on the grid, an end that is not visible
  is replaced by the top left corner or by the end of \<open>lastline\<close>, and the cells between
  them are flagged.\<close>

definition draw_selection :: "view \<Rightarrow> selection_ptr \<Rightarrow> unit option" where
  "draw_selection v p = do {
     sel \<leftarrow> view_selections_get v (Some p);
     if range_valid (v_text v) sel then do {
       gs \<leftarrow> view_coord_get v (fst sel);
       ge \<leftarrow> view_coord_get v (snd sel);
       if fst (snd gs) \<noteq> None \<or> fst (snd ge) \<noteq> None then do {
         let start_line = (case fst (snd gs) of None \<Rightarrow> topline v | Some r \<Rightarrow> r);
         let start_col = (case fst (snd gs) of None \<Rightarrow> 0 | Some r \<Rightarrow> snd (snd (snd gs)));
         let end_line = (case fst (snd ge) of None \<Rightarrow> v_lastline v | Some r \<Rightarrow> r);
         end_col \<leftarrow> (case fst (snd ge) of
                       None \<Rightarrow> map_option line_width (line_get v (v_lastline v))
                     | Some r \<Rightarrow> Some (snd (snd (snd ge))));
         sel_rows v (Some start_line) start_line start_col end_line end_col
       } else Some ()
     } else Some ()
   }"

text \<open>The loop over the selections in \<open>view_draw\<close>. It follows the \<open>next\<close> pointers and
  does not end on a cyclic list.\<close>

partial_function (option) draw_selections :: "view \<Rightarrow> selection_ptr option \<Rightarrow> unit option" where
  "draw_selections v sp =
     (case sp of
        None \<Rightarrow> Some ()
      | Some p \<Rightarrow> do {
          s \<leftarrow> selection_mem v p;
          u \<leftarrow> draw_selection v p;
          draw_selections v (sel_next s)
        })"

declare draw_selections.simps [code]

text \<open>The flags that the loop over the cursors sets for a cursor at \<open>pos\<close> whose
  \<open>view_coord_get\<close> returned \<open>g\<close>: \<open>cursor\<close> on the cell of the cursor and, with a UI and
  a syntax, \<open>selected\<close> on the cell of the matching bracket when that one is visible.\<close>

definition cursor_cells ::
  "view \<Rightarrow> filepos \<Rightarrow> bool \<times> line_ptr option \<times> int \<times> int \<Rightarrow> unit option" where
  "cursor_cells v pos g =
     (if fst g then do {
        u \<leftarrow> flag_cell v (fst (snd g)) (snd (snd (snd g)));
        if v_ui v \<and> v_syntax v \<noteq> None then
          (if pos \<noteq> bracket_match (v_text v) pos then do {
             g' \<leftarrow> view_coord_get v (bracket_match (v_text v) pos);
             if fst g' then flag_cell v (fst (snd g')) (snd (snd (snd g'))) else Some ()
           } else Some ())
        else Some ()
      } else Some ())"

text \<open>The loop over the cursors at the end of \<open>view_draw\<close>. It follows the \<open>next\<close>
  pointers and does not end on a cyclic list.\<close>

partial_function (option) draw_cursors :: "view \<Rightarrow> cursor_ptr option \<Rightarrow> view option" where
  "draw_cursors v cp =
     (case cp of
        None \<Rightarrow> Some v
      | Some p \<Rightarrow> do {
          c \<leftarrow> cursor_mem v p;
          g \<leftarrow> view_coord_get v (view_cursors_pos v c);
          u \<leftarrow> cursor_cells v (view_cursors_pos v c) g;
          draw_cursors (v\<lparr>cursor_mem := (cursor_mem v)(p \<mapsto> project_cursor v p c g)\<rparr>)
            (cur_next (project_cursor v p c g))
        })"

declare draw_cursors.simps [code]

definition view_draw :: "libc \<Rightarrow> view \<Rightarrow> view option" where
  "view_draw L v = do {
     v1 \<leftarrow> view_clear v;
     let text_len = size_t_of_int (v_width v1 * v_height v1);
     d \<leftarrow> draw_loop L text_len v1 (v_start v1)
            (text_bytes_get (v_text v1) (v_start v1) text_len) 0;
     let v2 = (fst d)\<lparr>v_end := snd d\<rparr>;
     let v3 = v2\<lparr>v_lastline := (case v_line v2 of Some r \<Rightarrow> r | None \<Rightarrow> bottomline v2)\<rparr>;
     v4 \<leftarrow> (case v_line v3 of
              None \<Rightarrow> Some v3
            | Some r \<Rightarrow> do {
                l \<leftarrow> line_get v3 r;
                l' \<leftarrow> blank_cells l (v_col v3) (v_width v3);
                line_put v3 r l'
              });
     v5 \<leftarrow> eof_lines v4 (line_next v4 (v_lastline v4));
     u \<leftarrow> draw_selections v5 (v_selections v5);
     draw_cursors v5 (v_cursors v5)
   }"

section \<open>Cursor movement\<close>

text \<open>\<open>cursor_to\<close>: the mark, \<open>lastcol\<close> and \<open>pos\<close> of the cursor, the endpoints of
  the selection it owns, its projection onto the grid, and a redraw when the (possibly
  advanced) position is visible.\<close>

definition cursor_to :: "libc \<Rightarrow> cursor_ptr \<Rightarrow> filepos \<Rightarrow> view \<Rightarrow> view option" where
  "cursor_to L cp pos0 v = do {
     c \<leftarrow> cursor_mem v cp;
     let txt = v_text v;
     let c1 = c\<lparr>cur_mark := mark_set txt pos0,
                cur_lastcol := (if pos0 \<noteq> cur_pos c then 0 else cur_lastcol c),
                cur_pos := pos0\<rparr>;
     vp \<leftarrow> (case cur_sel c1 of
              None \<Rightarrow> Some (v, pos0)
            | Some sp \<Rightarrow> do {
                s \<leftarrow> selection_mem v sp;
                let anchor = mark_get txt (sel_anchor s);
                let cursor = mark_get txt (sel_cursor s);
                let sa = (if pos0 < anchor \<and> anchor < cursor
                          then (char_next txt anchor,
                                s\<lparr>sel_anchor := mark_set txt (char_next txt anchor)\<rparr>)
                          else if cursor < anchor \<and> anchor \<le> pos0
                          then (char_prev txt anchor,
                                s\<lparr>sel_anchor := mark_set txt (char_prev txt anchor)\<rparr>)
                          else (anchor, s));
                let pos = (if fst sa \<le> pos0 then char_next txt pos0 else pos0);
                Some (v\<lparr>selection_mem :=
                          (selection_mem v)(sp \<mapsto> (snd sa)\<lparr>sel_cursor := mark_set txt pos\<rparr>)\<rparr>,
                      pos)
              });
     let v1 = fst vp;
     g \<leftarrow> view_coord_get v1 (snd vp);
     let v2 = v1\<lparr>cursor_mem := (cursor_mem v1)(cp \<mapsto> project_cursor v1 cp c1 g)\<rparr>;
     if \<not> fst g then Some v2 else view_draw L v2
   }"

text \<open>The loops of \<open>cursor_set\<close>: the walk from \<open>topline\<close> to the target row, the snap
  to the left, the snap to the right, and the sum of the cell lengths.\<close>

function set_row ::
  "view \<Rightarrow> line_ptr \<Rightarrow> line_ptr option \<Rightarrow> filepos \<Rightarrow> int \<Rightarrow> (filepos \<times> int) option" where
  "set_row v target cur pos row =
     (case cur of
        None \<Rightarrow> Some (pos, row)
      | Some r \<Rightarrow>
          if r \<noteq> target then do {
            l \<leftarrow> line_get v r;
            set_row v target (line_next v r) (pos + line_len l) (row + 1)
          } else Some (pos, row))"
  by pat_completeness auto
termination
  by (relation "measure (\<lambda>(v, target, cur, pos, row).
        case cur of None \<Rightarrow> 0 | Some r \<Rightarrow> Suc (length (v_lines v) - r))")
     (auto simp: line_next_def line_get_def split: if_splits)

declare set_row.simps [simp del]

function snap_left :: "line \<Rightarrow> int \<Rightarrow> int option" where
  "snap_left l col =
     (if col > 0 then do {
        c \<leftarrow> cell_get l col;
        if cell_len c = 0 then snap_left l (col - 1) else Some col
      } else Some col)"
  by pat_completeness auto
termination
  by (relation "measure (\<lambda>(l, col). nat col)") auto

declare snap_left.simps [simp del]

function snap_right :: "line \<Rightarrow> int \<Rightarrow> int option" where
  "snap_right l col =
     (if col < line_width l then do {
        c \<leftarrow> cell_get l col;
        if cell_istab c then snap_right l (col + 1) else Some col
      } else Some col)"
  by pat_completeness auto
termination
  by (relation "measure (\<lambda>(l, col). nat (line_width l - col))") auto

declare snap_right.simps [simp del]

function sum_len :: "line \<Rightarrow> int \<Rightarrow> int \<Rightarrow> filepos \<Rightarrow> filepos option" where
  "sum_len l i col pos =
     (if i < col then do { c \<leftarrow> cell_get l i; sum_len l (i + 1) col (pos + cell_len c) }
      else Some pos)"
  by pat_completeness auto
termination
  by (relation "measure (\<lambda>(l, i, col, pos). nat (col - i))") auto

declare sum_len.simps [simp del]

text \<open>The byte position that \<open>cursor_set\<close> computes for a row and a column, with the
  row number and the column it settles on.\<close>

definition cursor_set_pos :: "view \<Rightarrow> line_ptr \<Rightarrow> int \<Rightarrow> (filepos \<times> int \<times> int) option" where
  "cursor_set_pos v ln col0 = do {
     pr \<leftarrow> set_row v ln (Some (topline v)) (v_start v) 0;
     l \<leftarrow> line_get v ln;
     col1 \<leftarrow> snap_left l col0;
     col \<leftarrow> snap_right l col1;
     pos \<leftarrow> sum_len l 0 col (fst pr);
     Some (pos, snd pr, col)
   }"

definition cursor_set :: "libc \<Rightarrow> cursor_ptr \<Rightarrow> line_ptr \<Rightarrow> int \<Rightarrow> view \<Rightarrow> (filepos \<times> view) option" where
  "cursor_set L cp ln col0 v = do {
     c \<leftarrow> cursor_mem v cp;
     prc \<leftarrow> cursor_set_pos v ln col0;
     let c1 = c\<lparr>cur_col := snd (snd prc), cur_row := fst (snd prc), cur_line := Some ln\<rparr>;
     v' \<leftarrow> cursor_to L cp (fst prc) (v\<lparr>cursor_mem := (cursor_mem v)(cp \<mapsto> c1)\<rparr>);
     Some (fst prc, v')
   }"

section \<open>Viewport\<close>

text \<open>\<open>for (line = view->topline; line && n > 0; line = line->next, n--)
  view->start += line->len;\<close>\<close>

function down_rows :: "view \<Rightarrow> line_ptr option \<Rightarrow> int \<Rightarrow> view option" where
  "down_rows v ln n =
     (case ln of
        None \<Rightarrow> Some v
      | Some r \<Rightarrow>
          if n > 0 then do {
            l \<leftarrow> line_get v r;
            down_rows (v\<lparr>v_start := v_start v + line_len l\<rparr>) (line_next v r) (n - 1)
          } else Some v)"
  by pat_completeness auto
termination
  by (relation "measure (\<lambda>(v, ln, n). nat n)") auto

declare down_rows.simps [simp del]

definition view_viewport_down :: "libc \<Rightarrow> view \<Rightarrow> int \<Rightarrow> (bool \<times> view) option" where
  "view_viewport_down L v n =
     (if v_end v = text_size (v_text v) then Some (False, v)
      else do {
        v1 \<leftarrow> (if n \<ge> v_height v then Some (v\<lparr>v_start := v_end v\<rparr>)
               else down_rows v (Some (topline v)) n);
        v2 \<leftarrow> view_draw L v1;
        Some (True, v2)
      })"

text \<open>The \<open>do ... while\<close> loop of \<open>view_viewport_up\<close>: \<open>it\<close> is the iterator, \<open>c\<close>
  the byte read last; the result is \<open>c\<close> and \<open>off\<close> when the loop is left.\<close>

function up_scan :: "text_buf \<Rightarrow> filepos \<Rightarrow> char \<Rightarrow> int \<Rightarrow> nat \<Rightarrow> nat \<Rightarrow> char \<times> nat" where
  "up_scan t it c n off mx =
     (let n' = (if c = CHR 0x0A then n - 1 else n)
      in if c = CHR 0x0A \<and> n' = 0 then (c, off)
         else if off + 1 > mx then (c, off + 1)
         else (case text_iterator_byte_prev t it of
                 None \<Rightarrow> (c, off + 1)
               | Some (it', c') \<Rightarrow> up_scan t it' c' n' (off + 1) mx))"
  by pat_completeness auto
termination
  by (relation "measure (\<lambda>(t, it, c, n, off, mx). it)")
     (auto simp: text_iterator_byte_prev_def split: if_splits)

declare up_scan.simps [simp del]





section \<open>The cursor list and the selection list\<close>

text \<open>The loop of \<open>view_selections_free\<close> over the cursors: a cursor that refers to the
  selection keeps its marks and lets go of it. The selection is passed as the pair of
  its address and its contents.\<close>

definition unref_cursor :: "selection_ptr \<Rightarrow> selection \<Rightarrow> cursor \<Rightarrow> cursor" where
  "unref_cursor sp s c =
     (if cur_sel c = Some sp
      then c\<lparr>cur_lastsel_anchor := sel_anchor s, cur_lastsel_cursor := sel_cursor s,
             cur_sel := None\<rparr>
      else c)"

partial_function (option) sel_unref ::
  "view \<Rightarrow> selection_ptr \<times> selection \<Rightarrow> cursor_ptr option \<Rightarrow> view option" where
  "sel_unref v ss cp =
     (case cp of
        None \<Rightarrow> Some v
      | Some q \<Rightarrow> do {
          c \<leftarrow> cursor_mem v q;
          sel_unref (v\<lparr>cursor_mem := (cursor_mem v)(q \<mapsto> unref_cursor (fst ss) (snd ss) c)\<rparr>) ss
            (cur_next (unref_cursor (fst ss) (snd ss) c))
        })"

declare sel_unref.simps [code]

definition view_selections_free :: "view \<Rightarrow> selection_ptr option \<Rightarrow> view option" where
  "view_selections_free v spo =
     (case spo of
        None \<Rightarrow> Some v
      | Some sp \<Rightarrow> do {
          s \<leftarrow> selection_mem v sp;
          v1 \<leftarrow> (case sel_prev s of
                   None \<Rightarrow> Some v
                 | Some q \<Rightarrow> do {
                     sq \<leftarrow> selection_mem v q;
                     Some (v\<lparr>selection_mem := (selection_mem v)(q \<mapsto> sq\<lparr>sel_next := sel_next s\<rparr>)\<rparr>)
                   });
          s1 \<leftarrow> selection_mem v1 sp;
          v2 \<leftarrow> (case sel_next s1 of
                   None \<Rightarrow> Some v1
                 | Some q \<Rightarrow> do {
                     sq \<leftarrow> selection_mem v1 q;
                     Some (v1\<lparr>selection_mem := (selection_mem v1)(q \<mapsto> sq\<lparr>sel_prev := sel_prev s1\<rparr>)\<rparr>)
                   });
          s2 \<leftarrow> selection_mem v2 sp;
          let v3 = (if v_selections v2 = Some sp then v2\<lparr>v_selections := sel_next s2\<rparr> else v2);
          v4 \<leftarrow> sel_unref v3 (sp, s2) (v_cursors v3);
          Some (v4\<lparr>selection_mem := (selection_mem v4)(sp := None)\<rparr>)
        })"

definition view_cursors_free :: "view \<Rightarrow> cursor_ptr option \<Rightarrow> view option" where
  "view_cursors_free v cpo =
     (case cpo of
        None \<Rightarrow> Some v
      | Some cp \<Rightarrow> do {
          c \<leftarrow> cursor_mem v cp;
          v1 \<leftarrow> (case cur_prev c of
                   None \<Rightarrow> Some v
                 | Some q \<Rightarrow> do {
                     cq \<leftarrow> cursor_mem v q;
                     Some (v\<lparr>cursor_mem := (cursor_mem v)(q \<mapsto> cq\<lparr>cur_next := cur_next c\<rparr>)\<rparr>)
                   });
          c1 \<leftarrow> cursor_mem v1 cp;
          v2 \<leftarrow> (case cur_next c1 of
                   None \<Rightarrow> Some v1
                 | Some q \<Rightarrow> do {
                     cq \<leftarrow> cursor_mem v1 q;
                     Some (v1\<lparr>cursor_mem := (cursor_mem v1)(q \<mapsto> cq\<lparr>cur_prev := cur_prev c1\<rparr>)\<rparr>)
                   });
          c2 \<leftarrow> cursor_mem v2 cp;
          let v3 = (if v_cursors v2 = Some cp then v2\<lparr>v_cursors := cur_next c2\<rparr> else v2);
          let v4 = (if v_cursor v3 = Some cp
                    then v3\<lparr>v_cursor := (case cur_next c2 of Some n \<Rightarrow> Some n | None \<Rightarrow> cur_prev c2)\<rparr>
                    else v3);
          Some (v4\<lparr>cursor_mem := (cursor_mem v4)(cp := None)\<rparr>)
        })"

definition view_cursors_dispose :: "libc \<Rightarrow> view \<Rightarrow> cursor_ptr option \<Rightarrow> view option" where
  "view_cursors_dispose L v cpo =
     (case cpo of
        None \<Rightarrow> Some v
      | Some cp \<Rightarrow> do {
          c \<leftarrow> cursor_mem v cp;
          (case v_cursors v of
             None \<Rightarrow> Some v
           | Some h \<Rightarrow> do {
               hc \<leftarrow> cursor_mem v h;
               if cur_next hc \<noteq> None then do {
                 v1 \<leftarrow> view_selections_free v (cur_sel c);
                 v2 \<leftarrow> view_cursors_free v1 (Some cp);
                 view_draw L v2
               } else Some v
             })
        })"

definition view_selections_swap :: "selection \<Rightarrow> selection" where
  "view_selections_swap s = s\<lparr>sel_anchor := sel_cursor s, sel_cursor := sel_anchor s\<rparr>"

section \<open>Symbols\<close>

text \<open>Both functions loop over \<open>i = 0, ..., LENGTH(view->symbols) - 1\<close>.\<close>

definition view_symbols_set :: "view \<Rightarrow> int \<Rightarrow> view" where
  "view_symbols_set v flags =
     fold (\<lambda>i v.
        v\<lparr>v_symbols := (v_symbols v)(i :=
            (if flags AND push_bit i 1 \<noteq> 0
             then (if (case v_syntax v of None \<Rightarrow> False | Some s \<Rightarrow> syn_symbols s i \<noteq> None)
                   then Syntax_symbols i else Symbols_default i)
             else Symbols_none i))\<rparr>)
       [0..<SYNTAX_SYMBOL_LAST] v"

definition view_symbols_get :: "view \<Rightarrow> int" where
  "view_symbols_get v =
     fold (\<lambda>i flags. if v_symbols v i \<noteq> Symbols_none i then flags OR push_bit i 1 else flags)
       [0..<SYNTAX_SYMBOL_LAST] 0"

section \<open>An instance of the interfaces\<close>

text \<open>To run the model on concrete inputs: a C library for the single-byte characters
  below 128 (in the way of the C locale: a NUL byte gives 0, a byte from 128 on is an
  illegal sequence, and only the printable characters have a width), and a text buffer
  over such bytes whose marks are the byte offsets themselves and whose characters are
  single bytes.\<close>

definition ascii_libc :: libc where
  "ascii_libc =
     \<lparr>mbrtowc = (\<lambda>st s. (case s of
                     [] \<Rightarrow> MB_INCOMPLETE
                   | c # _ \<Rightarrow> if c = CHR 0x00 then MB_NUL
                              else if (of_char c :: nat) < 128 then MB_CHAR 1 (of_char c)
                              else MB_ILSEQ, st)),
      wcwidth = (\<lambda>w. if 32 \<le> w \<and> w < 127 then 1 else - 1)\<rparr>"

definition plain_text :: "string \<Rightarrow> text_buf" where
  "plain_text s =
     \<lparr>content = s,
      mark_set = (\<lambda>p. p),
      mark_get = (\<lambda>m. m),
      char_next = (\<lambda>p. if p < length s then p + 1 else p),
      char_prev = (\<lambda>p. p - 1),
      line_begin = (\<lambda>p. p - length (takeWhile (\<lambda>c. c \<noteq> CHR 0x0A) (rev (take p s)))),
      lineno_by_pos = (\<lambda>p. 1 + length (filter (\<lambda>c. c = CHR 0x0A) (take p s))),
      bracket_match = (\<lambda>p. p),
      range_new = (\<lambda>a b. (min a b, max a b)),
      range_empty = (EPOS, EPOS),
      range_valid = (\<lambda>r. fst r \<noteq> EPOS \<and> snd r \<noteq> EPOS \<and> fst r \<le> snd r)\<rparr>"

definition zero_cell :: cell where
  "zero_cell = \<lparr>cell_data = [], cell_len = 0, cell_width = 0, cell_istab = False\<rparr>"

definition zero_line :: "nat \<Rightarrow> line" where
  "zero_line w = \<lparr>line_lineno = 0, line_len = 0, line_width = 0, line_cells = replicate w zero_cell\<rparr>"

definition zero_cursor :: cursor where
  "zero_cursor =
     \<lparr>cur_pos = 0, cur_row = 0, cur_col = 0, cur_lastcol = 0, cur_line = None, cur_mark = 0,
      cur_sel = None, cur_lastsel_anchor = 0, cur_lastsel_cursor = 0,
      cur_prev = None, cur_next = None\<rparr>"

text \<open>The view as \<open>view_new\<close> and \<open>view_resize\<close> leave it before the first redraw:
  a zeroed grid of \<open>h\<close> rows and \<open>w\<close> columns, one cursor (at address 0) that is the
  primary one, no selection, the blank symbols and a tab width of 8.\<close>

definition fresh_view :: "text_buf \<Rightarrow> nat \<Rightarrow> nat \<Rightarrow> view" where
  "fresh_view t w h =
     \<lparr>v_text = t, v_ui = False, v_width = int w, v_height = int h,
      v_start = 0, v_end = 0, v_start_last = 0, v_start_mark = 0,
      v_lines = replicate h (zero_line w),
      v_lastline = 0, v_cursor = Some 0, v_line = None, v_col = 0, v_syntax = None,
      v_symbols = (\<lambda>i. Symbols_none i), v_tabwidth = 8, v_cursors = Some 0,
      v_selections = None, cursor_mem = [0 \<mapsto> zero_cursor], selection_mem = Map.empty\<rparr>"

text \<open>The scenario of the specification: eight single-byte characters, the cursor at
  byte 5, owning a selection with anchor 5 and cursor mark 6.\<close>

definition selecting_view :: view where
  "selecting_view =
     (fresh_view (plain_text ''abcdefgh'') 10 1)
       \<lparr>v_selections := Some 0,
        cursor_mem := [0 \<mapsto> zero_cursor\<lparr>cur_pos := 5, cur_mark := 5, cur_sel := Some 0\<rparr>],
        selection_mem := [0 \<mapsto> \<lparr>sel_anchor = 5, sel_cursor = 6, sel_prev = None, sel_next = None\<rparr>]\<rparr>"

section \<open>Invariants of drawing\<close>

definition draw_frame :: "view \<Rightarrow> view" where
  "draw_frame v = v\<lparr>v_lines := [], v_line := None, v_col := 0\<rparr>"

lemma draw_frame_simps [simp]:
  "draw_frame (v\<lparr>v_lines := ls\<rparr>) = draw_frame v"
  "draw_frame (v\<lparr>v_line := ln\<rparr>) = draw_frame v"
  "draw_frame (v\<lparr>v_col := c\<rparr>) = draw_frame v"
  by (simp_all add: draw_frame_def)

lemma draw_frame_fields:
  assumes "draw_frame v' = draw_frame v"
  shows "v_text v' = v_text v" "v_ui v' = v_ui v" "v_width v' = v_width v" "v_height v' = v_height v"
    "v_start v' = v_start v" "v_end v' = v_end v" "v_start_last v' = v_start_last v"
    "v_start_mark v' = v_start_mark v" "v_lastline v' = v_lastline v" "v_cursor v' = v_cursor v"
    "v_syntax v' = v_syntax v" "v_symbols v' = v_symbols v" "v_tabwidth v' = v_tabwidth v"
    "v_cursors v' = v_cursors v" "v_selections v' = v_selections v"
    "cursor_mem v' = cursor_mem v" "selection_mem v' = selection_mem v"
proof -
  have *: "\<And>f. f (draw_frame v') = f (draw_frame v)" using assms by simp
  show "v_text v' = v_text v" using * [of v_text] by (simp add: draw_frame_def)
  show "v_ui v' = v_ui v" using * [of v_ui] by (simp add: draw_frame_def)
  show "v_width v' = v_width v" using * [of v_width] by (simp add: draw_frame_def)
  show "v_height v' = v_height v" using * [of v_height] by (simp add: draw_frame_def)
  show "v_start v' = v_start v" using * [of v_start] by (simp add: draw_frame_def)
  show "v_end v' = v_end v" using * [of v_end] by (simp add: draw_frame_def)
  show "v_start_last v' = v_start_last v" using * [of v_start_last] by (simp add: draw_frame_def)
  show "v_start_mark v' = v_start_mark v" using * [of v_start_mark] by (simp add: draw_frame_def)
  show "v_lastline v' = v_lastline v" using * [of v_lastline] by (simp add: draw_frame_def)
  show "v_cursor v' = v_cursor v" using * [of v_cursor] by (simp add: draw_frame_def)
  show "v_syntax v' = v_syntax v" using * [of v_syntax] by (simp add: draw_frame_def)
  show "v_symbols v' = v_symbols v" using * [of v_symbols] by (simp add: draw_frame_def)
  show "v_tabwidth v' = v_tabwidth v" using * [of v_tabwidth] by (simp add: draw_frame_def)
  show "v_cursors v' = v_cursors v" using * [of v_cursors] by (simp add: draw_frame_def)
  show "v_selections v' = v_selections v" using * [of v_selections] by (simp add: draw_frame_def)
  show "cursor_mem v' = cursor_mem v" using * [of cursor_mem] by (simp add: draw_frame_def)
  show "selection_mem v' = selection_mem v" using * [of selection_mem] by (simp add: draw_frame_def)
qed

definition grid_ok :: "view \<Rightarrow> bool" where
  "grid_ok v \<longleftrightarrow>
     0 < v_height v \<and> 2 \<le> v_width v \<and> 0 < v_tabwidth v \<and>
     length (v_lines v) = nat (v_height v) \<and>
     (\<forall>l \<in> set (v_lines v). length (line_cells l) = nat (v_width v)) \<and>
     (\<forall>i < SYNTAX_SYMBOL_LAST. symbol_of v i \<noteq> None)"

definition draw_inv :: "view \<Rightarrow> bool" where
  "draw_inv v \<longleftrightarrow>
     grid_ok v \<and> (\<forall>r. v_line v = Some r \<longrightarrow> r < length (v_lines v)) \<and>
     0 \<le> v_col v \<and> v_col v \<le> v_width v"

lemma blank_cells_ok:
  "0 \<le> i \<Longrightarrow> w \<le> int (length (line_cells l)) \<Longrightarrow>
   \<exists>l'. blank_cells l i w = Some l' \<and> length (line_cells l') = length (line_cells l) \<and>
        line_lineno l' = line_lineno l \<and> line_len l' = line_len l \<and> line_width l' = line_width l"
proof (induction l i w rule: blank_cells.induct)
  case (1 l i w)
  show ?case
  proof (cases "i < w")
    case False
    then show ?thesis by (simp add: blank_cells.simps [of l i w])
  next
    case True
    let ?l = "l\<lparr>line_cells := (line_cells l)[nat i := cell_blank]\<rparr>"
    have put: "cell_put l i cell_blank = Some ?l"
      using True "1.prems" by (simp add: cell_put_def)
    have "\<exists>l'. blank_cells ?l (i + 1) w = Some l' \<and> length (line_cells l') = length (line_cells ?l) \<and>
        line_lineno l' = line_lineno ?l \<and> line_len l' = line_len ?l \<and> line_width l' = line_width ?l"
      using "1.prems" by (intro "1.IH" [OF True put]) simp_all
    then show ?thesis
      using True put by (simp add: blank_cells.simps [of l i w])
  qed
qed

lemma unused_cells_ok:
  "0 \<le> col \<Longrightarrow> col + (w - i) \<le> int (length (line_cells l)) \<Longrightarrow>
   \<exists>l'. unused_cells l col i w = Some (l', if i < w then col + (w - i) else col) \<and>
        length (line_cells l') = length (line_cells l) \<and>
        line_lineno l' = line_lineno l \<and> line_len l' = line_len l \<and> line_width l' = line_width l"
proof (induction l col i w rule: unused_cells.induct)
  case (1 l col i w)
  show ?case
  proof (cases "i < w")
    case False
    then show ?thesis by (simp add: unused_cells.simps [of l col i w])
  next
    case True
    let ?l = "l\<lparr>line_cells := (line_cells l)[nat col := cell_unused]\<rparr>"
    have put: "cell_put l col cell_unused = Some ?l"
      using True "1.prems" by (simp add: cell_put_def)
    have "\<exists>l'. unused_cells ?l (col + 1) (i + 1) w =
            Some (l', if i + 1 < w then col + 1 + (w - (i + 1)) else col + 1) \<and>
        length (line_cells l') = length (line_cells ?l) \<and>
        line_lineno l' = line_lineno ?l \<and> line_len l' = line_len ?l \<and> line_width l' = line_width ?l"
      using "1.prems" True by (intro "1.IH" [OF True put]) simp_all
    then show ?thesis
      using True put by (auto simp add: unused_cells.simps [of l col i w])
  qed
qed

lemma symbol_of_cong:
  "v_symbols v' = v_symbols v \<Longrightarrow> v_syntax v' = v_syntax v \<Longrightarrow> symbol_of v' i = symbol_of v i"
  by (simp add: symbol_of_def split: symbol_ptr.splits)

lemma symbol_of_simps [simp]:
  "symbol_of (v\<lparr>v_lines := ls\<rparr>) i = symbol_of v i"
  "symbol_of (v\<lparr>v_line := ln\<rparr>) i = symbol_of v i"
  "symbol_of (v\<lparr>v_col := c\<rparr>) i = symbol_of v i"
  by (rule symbol_of_cong; simp)+

lemma grid_ok_lines:
  "grid_ok v \<Longrightarrow> length ls = length (v_lines v) \<Longrightarrow>
   (\<forall>l \<in> set ls. length (line_cells l) = nat (v_width v)) \<Longrightarrow> grid_ok (v\<lparr>v_lines := ls\<rparr>)"
  by (simp add: grid_ok_def)

lemma grid_ok_cong:
  "draw_frame v' = draw_frame v \<Longrightarrow> v_lines v' = v_lines v \<Longrightarrow> grid_ok v' = grid_ok v"
proof -
  assume a: "draw_frame v' = draw_frame v" "v_lines v' = v_lines v"
  have "symbol_of v' = symbol_of v"
    by (rule ext, rule symbol_of_cong) (simp_all add: draw_frame_fields [OF a(1)])
  then show ?thesis
    by (simp add: grid_ok_def draw_frame_fields [OF a(1)] a(2))
qed

lemma grid_ok_line_col [simp]:
  "grid_ok (v\<lparr>v_line := ln\<rparr>) = grid_ok v" "grid_ok (v\<lparr>v_col := c\<rparr>) = grid_ok v"
  by (rule grid_ok_cong; simp)+

lemma grid_ok_update:
  assumes "grid_ok v" "length (line_cells l) = nat (v_width v)"
  shows "grid_ok (v\<lparr>v_lines := (v_lines v)[r := l]\<rparr>)"
proof (rule grid_ok_lines [OF assms(1)])
  show "length ((v_lines v)[r := l]) = length (v_lines v)" by simp
  show "\<forall>l \<in> set ((v_lines v)[r := l]). length (line_cells l) = nat (v_width v)"
  proof
    fix x assume "x \<in> set ((v_lines v)[r := l])"
    then have "x = l \<or> x \<in> set (v_lines v)"
      using set_update_subset_insert [of "v_lines v" r l] by auto
    then show "length (line_cells x) = nat (v_width v)"
      using assms by (auto simp: grid_ok_def)
  qed
qed

lemma grid_ok_nth:
  "grid_ok v \<Longrightarrow> r < length (v_lines v) \<Longrightarrow> length (line_cells (v_lines v ! r)) = nat (v_width v)"
  by (simp add: grid_ok_def)

lemma row_advance_ok:
  assumes "draw_inv v" "v_line v = Some r"
  shows "\<exists>v'. row_advance v r n = Some v' \<and> draw_inv v' \<and> v_col v' = 0 \<and>
           v_line v' = line_next v r \<and> draw_frame v' = draw_frame v \<and>
           length (v_lines v') = length (v_lines v)"
proof (cases "line_next v r")
  case None
  then show ?thesis using assms by (simp add: row_advance_def draw_inv_def)
next
  case (Some r')
  then have r': "r' < length (v_lines v)" by (simp add: line_next_def split: if_splits)
  have g: "grid_ok v" using assms by (simp add: draw_inv_def)
  have len: "length (line_cells (v_lines v ! r')) = nat (v_width v)"
    using g r' by (simp add: grid_ok_def)
  show ?thesis
    using Some r' assms grid_ok_update [OF g, of "(v_lines v ! r')\<lparr>line_lineno := n\<rparr>" r'] len
      grid_ok_cong [of "v\<lparr>v_line := Some r', v_col := 0,
             v_lines := (v_lines v)[r' := (v_lines v ! r')\<lparr>line_lineno := n\<rparr>]\<rparr>"
          "v\<lparr>v_lines := (v_lines v)[r' := (v_lines v ! r')\<lparr>line_lineno := n\<rparr>]\<rparr>"]
    by (simp add: row_advance_def line_get_def line_put_def draw_inv_def)
qed

lemma line_put_frame: "line_put v r l = Some v' \<Longrightarrow> draw_frame v' = draw_frame v"
  by (auto simp: line_put_def split: if_splits)

lemma row_advance_frame: "row_advance v r n = Some v' \<Longrightarrow> draw_frame v' = draw_frame v"
  by (auto simp: row_advance_def split: option.splits bind_splits dest!: line_put_frame)

lemma addch_tab_frame:
  "addch_tab v cell n w width = Some (ok, v', c') \<Longrightarrow> draw_frame v' = draw_frame v"
proof (induction v cell n w width rule: addch_tab.induct)
  case (1 v cell lineno w width)
  show ?case
  proof (cases "w < width")
    case False
    with "1.prems" show ?thesis by (simp add: addch_tab.simps [of v cell lineno w width])
  next
    case True
    from "1.prems" True obtain r v1 where
      r: "v_line v = Some r" and
      v1: "(if v_col v + 1 > v_width v then row_advance v r lineno else Some v) = Some v1"
      by (auto simp add: addch_tab.simps [of v cell lineno w width] split: bind_splits)
    have f1: "draw_frame v1 = draw_frame v"
      using v1 by (auto split: if_splits dest: row_advance_frame)
    show ?thesis
    proof (cases "v_line v1")
      case None
      with "1.prems" True r v1 f1 show ?thesis
        by (auto simp add: addch_tab.simps [of v cell lineno w width])
    next
      case (Some r1)
      let ?t = "if w = 0 then SYNTAX_SYMBOL_TAB else SYNTAX_SYMBOL_TAB_FILL"
      from "1.prems" True r v1 Some obtain sym l l1 v2 where
        sym: "symbol_of v1 ?t = Some sym" and
        l: "line_get v1 r1 = Some l" and
        l1: "cell_put l (v_col v1)
               (cell\<lparr>cell_len := (if w = 0 then 1 else 0), cell_data := strncpy sym (CELL_DATA_SIZE - 1)\<rparr>) = Some l1" and
        v2: "line_put v1 r1 (l1\<lparr>line_len := line_len l1 + cell_len (cell\<lparr>cell_len := (if w = 0 then 1 else 0), cell_data := strncpy sym (CELL_DATA_SIZE - 1)\<rparr>),
               line_width := line_width l1 + cell_width (cell\<lparr>cell_len := (if w = 0 then 1 else 0), cell_data := strncpy sym (CELL_DATA_SIZE - 1)\<rparr>)\<rparr>) = Some v2" and
        rec: "addch_tab (v2\<lparr>v_col := v_col v2 + 1\<rparr>)
               (cell\<lparr>cell_len := (if w = 0 then 1 else 0), cell_data := strncpy sym (CELL_DATA_SIZE - 1)\<rparr>)
               lineno (w + 1) width = Some (ok, v', c')"
        by (auto simp add: addch_tab.simps [of v cell lineno w width] Let_def split: bind_splits)
      have "draw_frame v' = draw_frame (v2\<lparr>v_col := v_col v2 + 1\<rparr>)"
        by (rule "1.IH" [OF True r v1 Some sym refl l l1 v2 rec])
      then show ?thesis using line_put_frame [OF v2] f1 by simp
    qed
  qed
qed

lemma cell_put_ok:
  "0 \<le> i \<Longrightarrow> i < int (length (line_cells l)) \<Longrightarrow>
   cell_put l i c = Some (l\<lparr>line_cells := (line_cells l)[nat i := c]\<rparr>)"
  by (simp add: cell_put_def)

lemma draw_inv_put:
  assumes "draw_inv v" "v_line v = Some r" "length (line_cells l) = nat (v_width v)"
    "0 \<le> c" "c \<le> v_width v"
  shows "draw_inv (v\<lparr>v_lines := (v_lines v)[r := l], v_col := c\<rparr>)"
proof -
  have "grid_ok (v\<lparr>v_lines := (v_lines v)[r := l]\<rparr>)"
    using assms by (intro grid_ok_update) (simp_all add: draw_inv_def)
  then have "grid_ok (v\<lparr>v_lines := (v_lines v)[r := l], v_col := c\<rparr>)" by simp
  then show ?thesis using assms by (simp add: draw_inv_def)
qed

lemma addch_tab_ok:
  "draw_inv v \<Longrightarrow> v_line v \<noteq> None \<Longrightarrow> cell_width cell = 1 \<Longrightarrow>
   \<exists>ok v' c'. addch_tab v cell n w width = Some (ok, v', c') \<and> draw_inv v' \<and>
      (ok \<longrightarrow> cell_len c' = 1)"
proof (induction v cell n w width rule: addch_tab.induct)
  case (1 v cell lineno w width)
  note unfold = addch_tab.simps [of v cell lineno w width]
  show ?case
  proof (cases "w < width")
    case False
    with "1.prems" show ?thesis by (auto simp add: unfold)
  next
    case True
    from "1.prems" obtain r where r: "v_line v = Some r" by auto
    obtain v1 where v1: "(if v_col v + 1 > v_width v then row_advance v r lineno else Some v) = Some v1"
      and inv1: "draw_inv v1" and col1: "v_col v1 + 1 \<le> v_width v1"
      and w1: "v_width v1 = v_width v"
    proof (cases "v_col v + 1 > v_width v")
      case True
      from row_advance_ok [OF "1.prems"(1) r, of lineno] obtain v1 where
        a: "row_advance v r lineno = Some v1" "draw_inv v1" "v_col v1 = 0" and
        f: "draw_frame v1 = draw_frame v"
        by blast
      have w1: "v_width v1 = v_width v" by (rule draw_frame_fields [OF f])
      have "2 \<le> v_width v" using "1.prems"(1) by (simp add: draw_inv_def grid_ok_def)
      with True a w1 show ?thesis by (intro that [of v1]) simp_all
    next
      case False
      with "1.prems"(1) show ?thesis by (intro that [of v]) simp_all
    qed
    show ?thesis
    proof (cases "v_line v1")
      case None
      with True r v1 inv1 show ?thesis by (auto simp add: unfold)
    next
      case (Some r1)
      let ?t = "if w = 0 then SYNTAX_SYMBOL_TAB else SYNTAX_SYMBOL_TAB_FILL"
      have "?t < SYNTAX_SYMBOL_LAST"
        by (simp add: SYNTAX_SYMBOL_TAB_def SYNTAX_SYMBOL_TAB_FILL_def SYNTAX_SYMBOL_LAST_def)
      then obtain sym where sym: "symbol_of v1 ?t = Some sym"
        using inv1 unfolding draw_inv_def grid_ok_def by blast
      let ?cell1 = "cell\<lparr>cell_len := (if w = 0 then 1 else 0), cell_data := strncpy sym (CELL_DATA_SIZE - 1)\<rparr>"
      have r1: "r1 < length (v_lines v1)" using inv1 Some by (simp add: draw_inv_def)
      let ?l = "v_lines v1 ! r1"
      have l: "line_get v1 r1 = Some ?l" using r1 by (simp add: line_get_def)
      have len: "length (line_cells ?l) = nat (v_width v1)"
        using inv1 r1 by (simp add: draw_inv_def grid_ok_nth)
      let ?l1 = "?l\<lparr>line_cells := (line_cells ?l)[nat (v_col v1) := ?cell1]\<rparr>"
      have l1: "cell_put ?l (v_col v1) ?cell1 = Some ?l1"
        using inv1 col1 len by (intro cell_put_ok) (simp_all add: draw_inv_def)
      let ?l2 = "?l1\<lparr>line_len := line_len ?l1 + cell_len ?cell1, line_width := line_width ?l1 + cell_width ?cell1\<rparr>"
      let ?v2 = "v1\<lparr>v_lines := (v_lines v1)[r1 := ?l2]\<rparr>"
      have v2: "line_put v1 r1 ?l2 = Some ?v2" using r1 by (simp add: line_put_def)
      have inv2: "draw_inv (?v2\<lparr>v_col := v_col ?v2 + 1\<rparr>)"
        using draw_inv_put [OF inv1 Some, of ?l2 "v_col v1 + 1"] len inv1 col1
        by (simp add: draw_inv_def)
      have "\<exists>ok v' c'. addch_tab (?v2\<lparr>v_col := v_col ?v2 + 1\<rparr>) ?cell1 lineno (w + 1) width = Some (ok, v', c') \<and>
          draw_inv v' \<and> (ok \<longrightarrow> cell_len c' = 1)"
        using "1.prems"(3) Some
        by (intro "1.IH" [OF True r v1 Some sym refl l l1 v2 inv2]) simp_all
      then show ?thesis
        using True r v1 Some sym l l1 v2 by (simp add: unfold Let_def)
    qed
  qed
qed

lemma addch_newline_frame:
  "addch_newline v cell r n = Some (ok, v', c') \<Longrightarrow> draw_frame v' = draw_frame v"
  by (auto simp: addch_newline_def Let_def split: if_splits option.splits bind_splits
      dest!: line_put_frame row_advance_frame)

lemma addch_default_frame:
  "addch_default v cell r n = Some (ok, v', c') \<Longrightarrow> draw_frame v' = draw_frame v"
  by (auto simp: addch_default_def Let_def split: if_splits option.splits bind_splits prod.splits
      dest!: line_put_frame)

lemma view_addch_frame:
  "view_addch v cell = Some (ok, v', c') \<Longrightarrow> draw_frame v' = draw_frame v"
  by (auto simp: view_addch_def Let_def split: if_splits option.splits bind_splits
      dest: addch_tab_frame addch_newline_frame addch_default_frame)

definition cell_fits :: "cell \<Rightarrow> bool" where
  "cell_fits c \<longleftrightarrow> cell_width c = 1 \<or> cell_width c = 2 \<or>
     ((of_char (data0 c) :: nat) < 128 \<and> \<not> isprint (data0 c))"

lemma addch_newline_ok:
  assumes inv: "draw_inv v" and r: "v_line v = Some r"
  shows "\<exists>ok v' c'. addch_newline v cell r n = Some (ok, v', c') \<and> draw_inv v' \<and>
      (ok \<longrightarrow> cell_len c' = cell_len cell)"
proof -
  obtain v1 where v1: "(if v_col v + 1 > v_width v then row_advance v r n else Some v) = Some v1"
    and inv1: "draw_inv v1" and col1: "v_col v1 + 1 \<le> v_width v1"
  proof (cases "v_col v + 1 > v_width v")
    case True
    from row_advance_ok [OF inv r, of n] obtain v1 where
      a: "row_advance v r n = Some v1" "draw_inv v1" "v_col v1 = 0" and
      f: "draw_frame v1 = draw_frame v"
      by blast
    have w1: "v_width v1 = v_width v" by (rule draw_frame_fields [OF f])
    have "2 \<le> v_width v" using inv by (simp add: draw_inv_def grid_ok_def)
    with True a w1 show ?thesis by (intro that [of v1]) simp_all
  next
    case False
    with inv show ?thesis by (intro that [of v]) simp_all
  qed
  show ?thesis
  proof (cases "v_line v1")
    case None
    with v1 inv1 show ?thesis by (auto simp add: addch_newline_def)
  next
    case (Some r1)
    have "SYNTAX_SYMBOL_EOL < SYNTAX_SYMBOL_LAST"
      by (simp add: SYNTAX_SYMBOL_EOL_def SYNTAX_SYMBOL_LAST_def)
    then obtain sym where sym: "symbol_of v1 SYNTAX_SYMBOL_EOL = Some sym"
      using inv1 unfolding draw_inv_def grid_ok_def by blast
    let ?cell1 = "cell\<lparr>cell_width := 1, cell_data := strncpy sym (CELL_DATA_SIZE - 1)\<rparr>"
    have r1: "r1 < length (v_lines v1)" using inv1 Some by (simp add: draw_inv_def)
    let ?l = "v_lines v1 ! r1"
    have l: "line_get v1 r1 = Some ?l" using r1 by (simp add: line_get_def)
    have len: "length (line_cells ?l) = nat (v_width v1)"
      using inv1 r1 by (simp add: draw_inv_def grid_ok_nth)
    let ?l1 = "?l\<lparr>line_cells := (line_cells ?l)[nat (v_col v1) := ?cell1]\<rparr>"
    have l1: "cell_put ?l (v_col v1) ?cell1 = Some ?l1"
      using inv1 col1 len by (intro cell_put_ok) (simp_all add: draw_inv_def)
    let ?l1' = "?l1\<lparr>line_len := line_len ?l1 + cell_len ?cell1, line_width := line_width ?l1 + cell_width ?cell1\<rparr>"
    obtain l2 where l2: "blank_cells ?l1' (v_col v1 + 1) (v_width v1) = Some l2"
      and len2: "length (line_cells l2) = nat (v_width v1)"
      using blank_cells_ok [of "v_col v1 + 1" "v_width v1" ?l1'] inv1 len
      by (auto simp add: draw_inv_def)
    let ?v2 = "v1\<lparr>v_lines := (v_lines v1)[r1 := l2]\<rparr>"
    have v2: "line_put v1 r1 l2 = Some ?v2" using r1 by (simp add: line_put_def)
    have inv2: "draw_inv ?v2"
      using draw_inv_put [OF inv1 Some len2, of "v_col v1"] inv1 by (simp add: draw_inv_def)
    have ln2: "v_line ?v2 = Some r1" using Some by simp
    obtain v3 where v3: "row_advance ?v2 r1 (n + 1) = Some v3" and inv3: "draw_inv v3"
      using row_advance_ok [OF inv2 ln2, of "n + 1"] by blast
    show ?thesis
      using v1 Some sym l l1 l2 v2 v3 inv3
      by (auto simp add: addch_newline_def Let_def)
  qed
qed


lemma addch_default_ok:
  assumes inv: "draw_inv v" and r: "v_line v = Some r" and fits: "cell_fits cell0"
  shows "\<exists>ok v' c'. addch_default v cell0 r n = Some (ok, v', c') \<and> draw_inv v' \<and>
      (ok \<longrightarrow> cell_len c' = 1 \<or> cell_len c' = cell_len cell0)"
proof -
  define cell1 where "cell1 = (if (of_char (data0 cell0) :: nat) < 128 \<and> \<not> isprint (data0 cell0)
                  then \<lparr>cell_data = [CHR ''^'', char_of ((of_char (data0 cell0) :: nat) + 64)],
                        cell_len = 1, cell_width = 2, cell_istab = False\<rparr>
                  else cell0)"
  have "SYNTAX_SYMBOL_SPACE < SYNTAX_SYMBOL_LAST"
    by (simp add: SYNTAX_SYMBOL_SPACE_def SYNTAX_SYMBOL_LAST_def)
  then obtain sym where sym: "symbol_of v SYNTAX_SYMBOL_SPACE = Some sym"
    using inv unfolding draw_inv_def grid_ok_def by blast
  define cell where "cell = (if data0 cell1 = CHR '' ''
      then cell1\<lparr>cell_data := strncpy sym (CELL_DATA_SIZE - 1)\<rparr> else cell1)"
  have cell: "(if data0 cell1 = CHR '' ''
              then do { sym \<leftarrow> symbol_of v SYNTAX_SYMBOL_SPACE;
                        Some (cell1\<lparr>cell_data := strncpy sym (CELL_DATA_SIZE - 1)\<rparr>) }
              else Some cell1) = Some cell"
    using sym by (simp add: cell_def)
  have cw: "cell_width cell = 1 \<or> cell_width cell = 2"
    using fits by (auto simp add: cell_fits_def cell_def cell1_def)
  have cl: "cell_len cell = 1 \<or> cell_len cell = cell_len cell0"
    by (auto simp add: cell_def cell1_def)
  have wv: "2 \<le> v_width v" using inv by (simp add: draw_inv_def grid_ok_def)
  have rl: "r < length (v_lines v)" using inv r by (simp add: draw_inv_def)
  obtain v1 where v1: "(if v_col v + cell_width cell > v_width v
            then do {
              l \<leftarrow> line_get v r;
              l' \<leftarrow> blank_cells l (v_col v) (v_width v);
              v' \<leftarrow> line_put v r l';
              Some (v'\<lparr>v_line := line_next v' r, v_col := 0\<rparr>) }
            else Some v) = Some v1"
    and inv1: "draw_inv v1" and col1: "v_col v1 + cell_width cell \<le> v_width v1"
  proof (cases "v_col v + cell_width cell > v_width v")
    case True
    let ?l = "v_lines v ! r"
    have len: "length (line_cells ?l) = nat (v_width v)"
      using inv rl by (simp add: draw_inv_def grid_ok_nth)
    obtain l' where l': "blank_cells ?l (v_col v) (v_width v) = Some l'"
      and len': "length (line_cells l') = nat (v_width v)"
      using blank_cells_ok [of "v_col v" "v_width v" ?l] inv len
      by (auto simp add: draw_inv_def)
    let ?v' = "v\<lparr>v_lines := (v_lines v)[r := l']\<rparr>"
    let ?v1 = "?v'\<lparr>v_line := line_next ?v' r, v_col := 0\<rparr>"
    have g: "grid_ok ?v'" using inv len' by (intro grid_ok_update) (simp_all add: draw_inv_def)
    have "draw_inv ?v1"
      using g wv by (auto simp add: draw_inv_def line_next_def)
    moreover have "v_col ?v1 + cell_width cell \<le> v_width ?v1"
      using cw wv by auto
    moreover have "(if v_col v + cell_width cell > v_width v
            then do {
              l \<leftarrow> line_get v r;
              l' \<leftarrow> blank_cells l (v_col v) (v_width v);
              v' \<leftarrow> line_put v r l';
              Some (v'\<lparr>v_line := line_next v' r, v_col := 0\<rparr>) }
            else Some v) = Some ?v1"
      using True rl l' by (simp add: line_get_def line_put_def)
    ultimately show ?thesis by (intro that [of ?v1])
  next
    case False
    with inv show ?thesis by (intro that [of v]) simp_all
  qed
  have unfold: "addch_default v cell0 r n = 
     (case v_line v1 of
        None \<Rightarrow> Some (False, v1, cell)
      | Some r1 \<Rightarrow> do {
          l \<leftarrow> line_get v1 r1;
          l1 \<leftarrow> cell_put (l\<lparr>line_width := line_width l + cell_width cell,
                              line_len := line_len l + cell_len cell,
                              line_lineno := n\<rparr>) (v_col v1) cell;
          (l2, col2) \<leftarrow> unused_cells l1 (v_col v1 + 1) 1 (cell_width cell);
          v2 \<leftarrow> line_put v1 r1 l2;
          Some (True, v2\<lparr>v_col := col2\<rparr>, cell)
        })"
    unfolding addch_default_def Let_def cell1_def [symmetric] cell Option.bind.simps v1 ..
  show ?thesis
  proof (cases "v_line v1")
    case None
    with inv1 show ?thesis unfolding unfold by auto
  next
    case (Some r1)
    have r1: "r1 < length (v_lines v1)" using inv1 Some by (simp add: draw_inv_def)
    let ?l = "v_lines v1 ! r1"
    have l: "line_get v1 r1 = Some ?l" using r1 by (simp add: line_get_def)
    have len: "length (line_cells ?l) = nat (v_width v1)"
      using inv1 r1 by (simp add: draw_inv_def grid_ok_nth)
    let ?la = "?l\<lparr>line_width := line_width ?l + cell_width cell,
                    line_len := line_len ?l + cell_len cell, line_lineno := n\<rparr>"
    let ?l1 = "?la\<lparr>line_cells := (line_cells ?la)[nat (v_col v1) := cell]\<rparr>"
    have c0: "0 \<le> v_col v1" using inv1 by (simp add: draw_inv_def)
    have l1: "cell_put ?la (v_col v1) cell = Some ?l1"
      using c0 col1 cw len by (intro cell_put_ok) auto
    let ?col2 = "v_col v1 + cell_width cell"
    have col2: "(if 1 < cell_width cell then v_col v1 + 1 + (cell_width cell - 1) else v_col v1 + 1) = ?col2"
      using cw by auto
    obtain l2 where l2: "unused_cells ?l1 (v_col v1 + 1) 1 (cell_width cell) = Some (l2, ?col2)"
      and len2: "length (line_cells l2) = nat (v_width v1)"
      using unused_cells_ok [of "v_col v1 + 1" "cell_width cell" 1 ?l1] c0 col1 len inv1
      unfolding col2 by (auto simp add: draw_inv_def grid_ok_def)
    let ?v2 = "v1\<lparr>v_lines := (v_lines v1)[r1 := l2]\<rparr>"
    have v2: "line_put v1 r1 l2 = Some ?v2" using r1 by (simp add: line_put_def)
    have inv2: "draw_inv (?v2\<lparr>v_col := ?col2\<rparr>)"
      using draw_inv_put [OF inv1 Some len2, of ?col2] c0 col1 cw by auto
    have "addch_default v cell0 r n = Some (True, ?v2\<lparr>v_col := ?col2\<rparr>, cell)"
      unfolding unfold using Some l l1 l2 v2 by simp
    with inv2 cl show ?thesis by blast
  qed
qed

lemma view_addch_ok:
  assumes inv: "draw_inv v" and fits: "cell_fits cell"
  shows "\<exists>ok v' c'. view_addch v cell = Some (ok, v', c') \<and> draw_inv v' \<and>
      (ok \<longrightarrow> cell_len c' = 1 \<or> cell_len c' = cell_len cell)"
proof (cases "v_line v")
  case None
  with inv show ?thesis by (auto simp add: view_addch_def)
next
  case (Some r)
  have rl: "r < length (v_lines v)" using inv Some by (simp add: draw_inv_def)
  have l: "line_get v r = Some (v_lines v ! r)" using rl by (simp add: line_get_def)
  have tw: "v_tabwidth v \<noteq> 0" using inv by (simp add: draw_inv_def grid_ok_def)
  consider (tab) "data0 cell = CHR 0x09" | (nl) "data0 cell \<noteq> CHR 0x09" "data0 cell = CHR 0x0A"
    | (other) "data0 cell \<noteq> CHR 0x09" "data0 cell \<noteq> CHR 0x0A" by blast
  then show ?thesis
  proof cases
    case tab
    obtain m where m: "c_mod (v_col v) (v_tabwidth v) = Some m"
      using tw by (simp add: c_mod_def)
    from addch_tab_ok [OF inv, of "cell\<lparr>cell_istab := True, cell_width := 1\<rparr>"
        "line_lineno (v_lines v ! r)" 0 "v_tabwidth v - m"] Some
    show ?thesis using tab l m Some by (auto simp add: view_addch_def)
  next
    case nl
    from addch_newline_ok [OF inv Some, of cell "line_lineno (v_lines v ! r)"]
    show ?thesis using nl l Some by (auto simp add: view_addch_def)
  next
    case other
    from addch_default_ok [OF inv Some fits, of "line_lineno (v_lines v ! r)"]
    show ?thesis using other l Some by (auto simp add: view_addch_def)
  qed
qed

lemma ilseq_len_bounds: "len \<le> ilseq_len rm len \<and> ilseq_len rm len \<le> max len (length rm)"
proof (induction rm len rule: ilseq_len.induct)
  case (1 rm len)
  show ?case
  proof (cases "length rm > len \<and> \<not> ISUTF8 (rm ! len)")
    case True
    with "1.IH" show ?thesis by (subst (1 2) ilseq_len.simps) auto
  next
    case False
    then show ?thesis by (subst (1 2) ilseq_len.simps) auto
  qed
qed

definition libc_ok :: "libc \<Rightarrow> bool" where
  "libc_ok L \<longleftrightarrow>
     (\<forall>st rm. rm \<noteq> [] \<longrightarrow>
        (case fst (mbrtowc L st rm) of
           MB_INCOMPLETE \<Rightarrow> False
         | MB_CHAR n w \<Rightarrow> 1 \<le> n \<and> n \<le> length rm \<and>
              (wcwidth L w = - 1 \<or> wcwidth L w = 1 \<or> wcwidth L w = 2)
         | _ \<Rightarrow> True))"

lemma draw_cell_ok:
  assumes "libc_ok L" "rm \<noteq> []"
  shows "fst (mbrtowc L st rm) \<noteq> MB_INCOMPLETE"
    and "cell_fits (draw_cell L (fst (mbrtowc L st rm)) rm)"
    and "1 \<le> cell_len (draw_cell L (fst (mbrtowc L st rm)) rm)"
    and "cell_len (draw_cell L (fst (mbrtowc L st rm)) rm) \<le> length rm"
proof -
  let ?res = "fst (mbrtowc L st rm)"
  have ok: "case ?res of MB_INCOMPLETE \<Rightarrow> False
         | MB_CHAR n w \<Rightarrow> 1 \<le> n \<and> n \<le> length rm \<and>
              (wcwidth L w = - 1 \<or> wcwidth L w = 1 \<or> wcwidth L w = 2)
         | _ \<Rightarrow> True"
    using assms unfolding libc_ok_def by blast
  have il: "1 \<le> ilseq_len rm 1" "ilseq_len rm 1 \<le> length rm"
    using ilseq_len_bounds [of 1 rm] assms(2) by (auto simp: max_def Suc_le_eq split: if_splits)
  show "?res \<noteq> MB_INCOMPLETE" using ok by (cases ?res) auto
  show "cell_fits (draw_cell L ?res rm)"
    using ok by (cases ?res) (auto simp add: draw_cell_def cell_fits_def data0_def isprint_def)
  show "1 \<le> cell_len (draw_cell L ?res rm)"
    using ok il by (cases ?res) (auto simp add: draw_cell_def)
  show "cell_len (draw_cell L ?res rm) \<le> length rm"
    using ok il by (cases ?res) (auto simp add: draw_cell_def)
qed

lemma draw_loop_ok:
  "libc_ok L \<Longrightarrow> draw_inv v \<Longrightarrow>
   \<exists>v' pos'. draw_loop L n v pos rm st = Some (v', pos') \<and> draw_inv v'"
proof (induction "length rm" arbitrary: v pos rm st rule: less_induct)
  case less
  show ?case
  proof (cases "rm = []")
    case True
    with less.prems show ?thesis by (subst draw_loop.simps) simp
  next
    case False
    let ?cell = "draw_cell L (fst (mbrtowc L st rm)) rm"
    note dc = draw_cell_ok [OF less.prems(1) False, of st]
    obtain ok v1 c1 where a: "view_addch v ?cell = Some (ok, v1, c1)" and inv1: "draw_inv v1"
      and len: "ok \<longrightarrow> cell_len c1 = 1 \<or> cell_len c1 = cell_len ?cell"
      using view_addch_ok [OF less.prems(2) dc(2)] by blast
    show ?thesis
    proof (cases ok)
      case False
      with a inv1 \<open>rm \<noteq> []\<close> dc(1) show ?thesis by (subst draw_loop.simps) simp
    next
      case True
      with len dc have l1: "1 \<le> cell_len c1" "cell_len c1 \<le> length rm" by auto
      then have "length (drop (cell_len c1) rm) < length rm" using \<open>rm \<noteq> []\<close> by simp
      from less.hyps [OF this less.prems(1) inv1]
      obtain v' pos' where
        "draw_loop L n v1 (pos + cell_len c1) (drop (cell_len c1) rm) (snd (mbrtowc L st rm)) = Some (v', pos')"
        "draw_inv v'" by blast
      with a True l1 \<open>rm \<noteq> []\<close> dc(1) show ?thesis by (subst draw_loop.simps) simp
    qed
  qed
qed

lemma draw_loop_frame:
  assumes "draw_loop L n v pos rm st = Some r"
  shows "draw_frame (fst r) = draw_frame v"
proof (rule draw_loop.raw_induct
    [where P = "\<lambda>L n v pos rm st r. draw_frame (fst r) = draw_frame v", OF _ assms], goal_cases)
  case (1 f L text_len v pos rm st r)
  note IH = "1"(1) and body = "1"(2)
  show ?case
  proof (cases "rm = []")
    case True
    with body show ?thesis by auto
  next
    case False
    show ?thesis
    proof (cases "fst (mbrtowc L st rm) = MB_INCOMPLETE")
      case True
      with False body have
        "f L text_len v pos (text_bytes_get (v_text v) pos text_len) (snd (mbrtowc L st rm)) = Some r"
        by simp
      then show ?thesis by (rule IH)
    next
      case False
      with \<open>rm \<noteq> []\<close> body obtain x where
        ax: "view_addch v (draw_cell L (fst (mbrtowc L st rm)) rm) = Some x" and
        bx: "(if \<not> fst x then Some (fst (snd x), pos)
             else if length rm < cell_len (snd (snd x)) then None
             else f L text_len (fst (snd x)) (pos + cell_len (snd (snd x)))
                    (drop (cell_len (snd (snd x))) rm) (snd (mbrtowc L st rm))) = Some r"
        by (auto split: bind_splits)
      define ok where "ok = fst x"
      define v1 where "v1 = fst (snd x)"
      define c1 where "c1 = snd (snd x)"
      have a: "view_addch v (draw_cell L (fst (mbrtowc L st rm)) rm) = Some (ok, v1, c1)"
        using ax by (simp add: ok_def v1_def c1_def)
      have b: "(if \<not> ok then Some (v1, pos)
             else if length rm < cell_len c1 then None
             else f L text_len v1 (pos + cell_len c1) (drop (cell_len c1) rm)
                    (snd (mbrtowc L st rm))) = Some r"
        using bx unfolding ok_def v1_def c1_def .
      have f1: "draw_frame v1 = draw_frame v" using a by (rule view_addch_frame)
      show ?thesis
      proof (cases ok)
        case False
        with b f1 show ?thesis by auto
      next
        case True
        with b have "f L text_len v1 (pos + cell_len c1) (drop (cell_len c1) rm)
                    (snd (mbrtowc L st rm)) = Some r"
          by (auto split: if_splits)
        then have "draw_frame (fst r) = draw_frame v1" by (rule IH)
        with f1 show ?thesis by simp
      qed
    qed
  qed
qed

lemma eof_lines_frame:
  "eof_lines v ln = Some v' \<Longrightarrow>
   draw_frame v' = draw_frame v \<and> v_line v' = v_line v \<and> v_col v' = v_col v"
proof (induction v ln rule: eof_lines.induct)
  case (1 v ln)
  show ?case
  proof (cases ln)
    case None
    with "1.prems" show ?thesis by (simp add: eof_lines.simps [of v])
  next
    case (Some r)
    with "1.prems" obtain l sym c0 l1 l2 where
      s: "line_get v r = Some l" "symbol_of v SYNTAX_SYMBOL_EOF = Some sym" "cell_get l 0 = Some c0"
        "cell_put l 0 (c0\<lparr>cell_data := strncpy sym CELL_DATA_SIZE\<rparr>) = Some l1"
        "blank_cells l1 1 (v_width v) = Some l2" and
      rec: "eof_lines (v\<lparr>v_lines := (v_lines v)[r := l2\<lparr>line_width := 1, line_len := 0\<rparr>]\<rparr>)
             (line_next (v\<lparr>v_lines := (v_lines v)[r := l2\<lparr>line_width := 1, line_len := 0\<rparr>]\<rparr>) r) = Some v'"
      by (auto simp add: eof_lines.simps [of v] split: bind_splits option.splits)
    let ?v = "v\<lparr>v_lines := (v_lines v)[r := l2\<lparr>line_width := 1, line_len := 0\<rparr>]\<rparr>"
    have e: "do {
                  l \<leftarrow> line_get v r;
                  sym \<leftarrow> symbol_of v SYNTAX_SYMBOL_EOF;
                  c0 \<leftarrow> cell_get l 0;
                  l1 \<leftarrow> cell_put l 0 (c0\<lparr>cell_data := strncpy sym CELL_DATA_SIZE\<rparr>);
                  l2 \<leftarrow> blank_cells l1 1 (v_width v);
                  Some (v\<lparr>v_lines := (v_lines v)[r := l2\<lparr>line_width := 1, line_len := 0\<rparr>]\<rparr>)
                } = Some ?v"
      using s by simp
    from "1.IH" [OF Some e rec] show ?thesis by simp
  qed
qed

lemma eof_lines_ok:
  "grid_ok v \<Longrightarrow> (\<forall>r. ln = Some r \<longrightarrow> r < length (v_lines v)) \<Longrightarrow>
   \<exists>v'. eof_lines v ln = Some v' \<and> grid_ok v'"
proof (induction v ln rule: eof_lines.induct)
  case (1 v ln)
  show ?case
  proof (cases ln)
    case None
    with "1.prems" show ?thesis by (simp add: eof_lines.simps [of v])
  next
    case (Some r)
    with "1.prems" have rl: "r < length (v_lines v)" by simp
    let ?l = "v_lines v ! r"
    have l: "line_get v r = Some ?l" using rl by (simp add: line_get_def)
    have len: "length (line_cells ?l) = nat (v_width v)"
      using "1.prems"(1) rl by (simp add: grid_ok_nth)
    have w: "2 \<le> v_width v" using "1.prems"(1) by (simp add: grid_ok_def)
    have "SYNTAX_SYMBOL_EOF < SYNTAX_SYMBOL_LAST"
      by (simp add: SYNTAX_SYMBOL_EOF_def SYNTAX_SYMBOL_LAST_def)
    then obtain sym where sym: "symbol_of v SYNTAX_SYMBOL_EOF = Some sym"
      using "1.prems"(1) unfolding grid_ok_def by blast
    let ?c0 = "line_cells ?l ! 0"
    have c0: "cell_get ?l 0 = Some ?c0" using len w by (simp add: cell_get_def)
    let ?l1 = "?l\<lparr>line_cells := (line_cells ?l)[nat 0 := ?c0\<lparr>cell_data := strncpy sym CELL_DATA_SIZE\<rparr>]\<rparr>"
    have l1: "cell_put ?l 0 (?c0\<lparr>cell_data := strncpy sym CELL_DATA_SIZE\<rparr>) = Some ?l1"
      using len w by (intro cell_put_ok) simp_all
    obtain l2 where l2: "blank_cells ?l1 1 (v_width v) = Some l2"
      and len2: "length (line_cells l2) = nat (v_width v)"
      using blank_cells_ok [of 1 "v_width v" ?l1] len w by auto
    let ?v = "v\<lparr>v_lines := (v_lines v)[r := l2\<lparr>line_width := 1, line_len := 0\<rparr>]\<rparr>"
    have e: "do {
                  l \<leftarrow> line_get v r;
                  sym \<leftarrow> symbol_of v SYNTAX_SYMBOL_EOF;
                  c0 \<leftarrow> cell_get l 0;
                  l1 \<leftarrow> cell_put l 0 (c0\<lparr>cell_data := strncpy sym CELL_DATA_SIZE\<rparr>);
                  l2 \<leftarrow> blank_cells l1 1 (v_width v);
                  Some (v\<lparr>v_lines := (v_lines v)[r := l2\<lparr>line_width := 1, line_len := 0\<rparr>]\<rparr>)
                } = Some ?v"
      using l sym c0 l1 l2 by simp
    have g: "grid_ok ?v" using "1.prems"(1) len2 by (intro grid_ok_update) simp_all
    have "\<exists>v'. eof_lines ?v (line_next ?v r) = Some v' \<and> grid_ok v'"
      by (rule "1.IH" [OF Some e g]) (simp add: line_next_def)
    then show ?thesis using Some e by (simp add: eof_lines.simps [of v])
  qed
qed

lemma coord_row_ok:
  "(\<forall>r. ln = Some r \<longrightarrow> r < length (v_lines v)) \<Longrightarrow>
   \<exists>ln' cur' row'. coord_row v pos ln cur row = Some (ln', cur', row') \<and>
      (\<forall>r. ln' = Some r \<longrightarrow> r < length (v_lines v))"
proof (induction v pos ln cur row rule: coord_row.induct)
  case (1 v pos ln cur row)
  note unfold = coord_row.simps [of v pos]
  show ?case
  proof (cases ln)
    case None
    then show ?thesis by (subst coord_row.simps) simp
  next
    case (Some r)
    with "1.prems" have rl: "r < length (v_lines v)" by simp
    have l: "line_get v r = Some (v_lines v ! r)" using rl by (simp add: line_get_def)
    show ?thesis
    proof (cases "r \<noteq> v_lastline v \<and> cur < pos \<and> \<not> cur + line_len (v_lines v ! r) > pos")
      case False
      with Some l rl show ?thesis by (auto simp add: unfold)
    next
      case True
      then have c: "r \<noteq> v_lastline v \<and> cur < pos" and d: "\<not> cur + line_len (v_lines v ! r) > pos"
        by auto
      have "\<exists>ln' cur' row'. coord_row v pos (line_next v r) (cur + line_len (v_lines v ! r)) (row + 1)
              = Some (ln', cur', row') \<and> (\<forall>r. ln' = Some r \<longrightarrow> r < length (v_lines v))"
        by (rule "1.IH" [OF Some c l d]) (simp add: line_next_def)
      with Some l c d show ?thesis by (simp add: unfold)
    qed
  qed
qed

lemma coord_skip_ok:
  "0 \<le> col \<Longrightarrow> max_col \<le> int (length (line_cells l)) \<Longrightarrow>
   \<exists>c'. coord_skip l col max_col = Some c' \<and> col \<le> c'"
proof (induction l col max_col rule: coord_skip.induct)
  case (1 l col max_col)
  note unfold = coord_skip.simps [of l col max_col]
  show ?case
  proof (cases "col < max_col")
    case False
    then show ?thesis by (simp add: unfold)
  next
    case True
    have "nat col < length (line_cells l)" using True "1.prems" by linarith
    then have c: "cell_get l col = Some (line_cells l ! nat col)"
      using True "1.prems" by (simp add: cell_get_def)
    show ?thesis
    proof (cases "cell_len (line_cells l ! nat col) = 0")
      case False
      with True c show ?thesis by (simp add: unfold)
    next
      case z: True
      have "\<exists>c'. coord_skip l (col + 1) max_col = Some c' \<and> col + 1 \<le> c'"
        using "1.prems" by (intro "1.IH" [OF True c z]) simp_all
      with True c z show ?thesis by (auto simp add: unfold)
    qed
  qed
qed

lemma coord_col_ok:
  "0 \<le> col \<Longrightarrow> max_col \<le> int (length (line_cells l)) \<Longrightarrow>
   \<exists>c'. coord_col l pos cur col max_col = Some c'"
proof (induction l pos cur col max_col rule: coord_col.induct)
  case (1 l pos cur col max_col)
  note unfold = coord_col.simps [of l pos cur col max_col]
  show ?case
  proof (cases "cur < pos \<and> col < max_col")
    case False
    then show ?thesis by (auto simp add: unfold)
  next
    case True
    have "nat col < length (line_cells l)" using True "1.prems" by linarith
    then have c: "cell_get l col = Some (line_cells l ! nat col)"
      using True "1.prems" by (simp add: cell_get_def)
    obtain c' where s: "coord_skip l (col + 1) max_col = Some c'" and ge: "col + 1 \<le> c'"
      using coord_skip_ok [of "col + 1" max_col l] "1.prems" by auto
    have "\<exists>c''. coord_col l pos (cur + cell_len (line_cells l ! nat col)) c' max_col = Some c''"
      using "1.prems" ge by (intro "1.IH" [OF True c s]) simp_all
    with True c s show ?thesis by (simp add: unfold)
  qed
qed

lemma view_coord_get_ok:
  assumes "grid_ok v"
  shows "\<exists>g. view_coord_get v pos = Some g"
proof (cases "pos < v_start v \<or> pos > v_end v")
  case True
  then show ?thesis by (auto simp add: view_coord_get_def)
next
  case False
  have "0 < length (v_lines v)" using assms by (simp add: grid_ok_def)
  then obtain ln cur row where
    r: "coord_row v pos (Some (topline v)) (v_start v) 0 = Some (ln, cur, row)" and
    v: "\<forall>r. ln = Some r \<longrightarrow> r < length (v_lines v)"
    using coord_row_ok [of "Some (topline v)" v pos "v_start v" 0] by (auto simp add: topline_def)
  show ?thesis
  proof (cases ln)
    case None
    with False r show ?thesis by (auto simp add: view_coord_get_def)
  next
    case (Some r')
    with v have rl: "r' < length (v_lines v)" by simp
    have l: "line_get v r' = Some (v_lines v ! r')" using rl by (simp add: line_get_def)
    have len: "length (line_cells (v_lines v ! r')) = nat (v_width v)"
      using assms rl by (simp add: grid_ok_nth)
    have w: "2 \<le> v_width v" using assms by (simp add: grid_ok_def)
    obtain c' where "coord_col (v_lines v ! r') pos cur 0 (min (v_width v) (line_width (v_lines v ! r'))) = Some c'"
      using coord_col_ok [of 0 "min (v_width v) (line_width (v_lines v ! r'))" "v_lines v ! r'" pos cur] len w
      by auto
    with False r Some l show ?thesis by (auto simp add: view_coord_get_def)
  qed
qed

fun cursor_list ::
  "(cursor_ptr \<Rightarrow> cursor option) \<Rightarrow> cursor_ptr option \<Rightarrow> cursor_ptr option \<Rightarrow> cursor_ptr list \<Rightarrow> bool" where
  "cursor_list m prev h [] = (h = None)"
| "cursor_list m prev h (p # ps) =
     (h = Some p \<and>
      (case m p of None \<Rightarrow> False
       | Some c \<Rightarrow> cur_prev c = prev \<and> cursor_list m (Some p) (cur_next c) ps))"

definition cursor_links :: "cursor \<Rightarrow> cursor_ptr option \<times> cursor_ptr option" where
  "cursor_links c = (cur_prev c, cur_next c)"

lemma cursor_list_cong:
  "(\<And>q. map_option cursor_links (m' q) = map_option cursor_links (m q)) \<Longrightarrow>
   cursor_list m' prev h ps = cursor_list m prev h ps"
proof (induction ps arbitrary: prev h)
  case Nil
  show ?case by simp
next
  case (Cons p ps)
  have e: "map_option cursor_links (m' p) = map_option cursor_links (m p)" by (rule Cons.prems)
  show ?case
  proof (cases "m p")
    case None
    with e show ?thesis by simp
  next
    case (Some c)
    with e obtain c' where c': "m' p = Some c'" "cursor_links c' = cursor_links c"
      by (cases "m' p") auto
    with Some Cons.IH [OF Cons.prems] show ?thesis by (simp add: cursor_links_def)
  qed
qed

definition cursor_static :: "cursor \<Rightarrow> cursor" where
  "cursor_static c = c\<lparr>cur_line := None, cur_row := 0, cur_col := 0\<rparr>"

text \<open>What a redraw leaves alone: every field of the view but the grid, the viewport
  positions and the projections of the cursors.\<close>

definition static_frame :: "view \<Rightarrow> view" where
  "static_frame v =
     v\<lparr>v_start := 0, v_end := 0, v_start_last := 0, v_start_mark := 0, v_lines := [],
       v_lastline := 0, v_line := None, v_col := 0,
       cursor_mem := (\<lambda>p. map_option cursor_static (cursor_mem v p))\<rparr>"

lemma static_frame_fields:
  assumes "static_frame v' = static_frame v"
  shows "v_text v' = v_text v" "v_ui v' = v_ui v" "v_width v' = v_width v" "v_height v' = v_height v"
    "v_cursor v' = v_cursor v"
    "v_syntax v' = v_syntax v" "v_symbols v' = v_symbols v" "v_tabwidth v' = v_tabwidth v"
    "v_cursors v' = v_cursors v" "v_selections v' = v_selections v"
    "selection_mem v' = selection_mem v"
    "map_option cursor_static (cursor_mem v' p) = map_option cursor_static (cursor_mem v p)"
proof -
  have *: "\<And>f. f (static_frame v') = f (static_frame v)" using assms by simp
  show "v_text v' = v_text v" using * [of v_text] by (simp add: static_frame_def)
  show "v_ui v' = v_ui v" using * [of v_ui] by (simp add: static_frame_def)
  show "v_width v' = v_width v" using * [of v_width] by (simp add: static_frame_def)
  show "v_height v' = v_height v" using * [of v_height] by (simp add: static_frame_def)
  show "v_cursor v' = v_cursor v" using * [of v_cursor] by (simp add: static_frame_def)
  show "v_syntax v' = v_syntax v" using * [of v_syntax] by (simp add: static_frame_def)
  show "v_symbols v' = v_symbols v" using * [of v_symbols] by (simp add: static_frame_def)
  show "v_tabwidth v' = v_tabwidth v" using * [of v_tabwidth] by (simp add: static_frame_def)
  show "v_cursors v' = v_cursors v" using * [of v_cursors] by (simp add: static_frame_def)
  show "v_selections v' = v_selections v" using * [of v_selections] by (simp add: static_frame_def)
  show "selection_mem v' = selection_mem v" using * [of selection_mem] by (simp add: static_frame_def)
  show "map_option cursor_static (cursor_mem v' p) = map_option cursor_static (cursor_mem v p)"
    using * [of "\<lambda>v. cursor_mem v p"] by (simp add: static_frame_def)
qed

lemma static_frame_of_draw_frame:
  "draw_frame v' = draw_frame v \<Longrightarrow> static_frame v' = static_frame v"
proof -
  assume a: "draw_frame v' = draw_frame v"
  have "static_frame v' = static_frame (draw_frame v')"
    by (simp add: static_frame_def draw_frame_def)
  also have "\<dots> = static_frame (draw_frame v)" using a by simp
  also have "\<dots> = static_frame v" by (simp add: static_frame_def draw_frame_def)
  finally show ?thesis .
qed

lemma cursor_links_static: "cursor_links (cursor_static c) = cursor_links c"
  by (simp add: cursor_links_def cursor_static_def)

lemma cursor_list_static:
  assumes "\<And>q. map_option cursor_static (m' q) = map_option cursor_static (m q)"
  shows "cursor_list m' prev h cs = cursor_list m prev h cs"
proof (rule cursor_list_cong)
  fix q
  have "map_option cursor_links (map_option cursor_static (m' q)) =
        map_option cursor_links (map_option cursor_static (m q))"
    using assms [of q] by simp
  then show "map_option cursor_links (m' q) = map_option cursor_links (m q)"
    by (simp add: option.map_comp comp_def cursor_links_static)
qed

lemma grid_ok_fields:
  assumes "v_height v' = v_height v" "v_width v' = v_width v" "v_tabwidth v' = v_tabwidth v"
    "v_lines v' = v_lines v" "v_symbols v' = v_symbols v" "v_syntax v' = v_syntax v"
  shows "grid_ok v' = grid_ok v"
proof -
  have "symbol_of v' = symbol_of v"
    by (rule ext, rule symbol_of_cong) (simp_all add: assms)
  then show ?thesis by (simp add: grid_ok_def assms)
qed

lemma grid_ok_cursor_mem [simp]: "grid_ok (v\<lparr>cursor_mem := m\<rparr>) = grid_ok v"
proof -
  have "symbol_of (v\<lparr>cursor_mem := m\<rparr>) = symbol_of v"
    by (rule ext, rule symbol_of_cong) simp_all
  then show ?thesis by (simp add: grid_ok_def)
qed

lemma project_cursor_static [simp]:
  "cursor_static (project_cursor v p c g) = cursor_static c"
  "cur_next (project_cursor v p c g) = cur_next c"
  by (simp_all add: project_cursor_def cursor_static_def Let_def)

lemma draw_cursors_frame:
  assumes "draw_cursors v cp = Some v'"
  shows "v' = v\<lparr>cursor_mem := cursor_mem v'\<rparr> \<and>
         (\<forall>q. map_option cursor_static (cursor_mem v' q) = map_option cursor_static (cursor_mem v q))"
proof (rule draw_cursors.raw_induct
    [where P = "\<lambda>v cp v'. v' = v\<lparr>cursor_mem := cursor_mem v'\<rparr> \<and>
         (\<forall>q. map_option cursor_static (cursor_mem v' q) = map_option cursor_static (cursor_mem v q))",
     OF _ assms], goal_cases)
  case (1 f v cp v')
  note IH = "1"(1) and body = "1"(2)
  show ?case
  proof (cases cp)
    case None
    with body show ?thesis by simp
  next
    case (Some p)
    with body obtain c g where
      c: "cursor_mem v p = Some c" and g: "view_coord_get v (view_cursors_pos v c) = Some g" and
      rec: "f (v\<lparr>cursor_mem := (cursor_mem v)(p \<mapsto> project_cursor v p c g)\<rparr>) (cur_next c) = Some v'"
      by (auto split: bind_splits)
    let ?v = "v\<lparr>cursor_mem := (cursor_mem v)(p \<mapsto> project_cursor v p c g)\<rparr>"
    from IH [OF rec] have a: "v' = ?v\<lparr>cursor_mem := cursor_mem v'\<rparr>" and
      b: "\<And>q. map_option cursor_static (cursor_mem v' q) = map_option cursor_static (cursor_mem ?v q)"
      by auto
    have "v' = v\<lparr>cursor_mem := cursor_mem v'\<rparr>" using a by simp
    moreover have "map_option cursor_static (cursor_mem v' q) = map_option cursor_static (cursor_mem v q)" for q
      using b [of q] c by (cases "q = p") simp_all
    ultimately show ?thesis by blast
  qed
qed

lemma start_sync_frame [simp]:
  "static_frame (start_sync v) = static_frame v" "v_lines (start_sync v) = v_lines v"
  "v_end (start_sync v) = v_end v" "cursor_mem (start_sync v) = cursor_mem v"
  "v_height (start_sync v) = v_height v" "v_width (start_sync v) = v_width v"
  "v_text (start_sync v) = v_text v"
  by (simp_all add: start_sync_def static_frame_def Let_def)

lemma grid_ok_start_sync [simp]: "grid_ok (start_sync v) = grid_ok v"
proof -
  have "symbol_of (start_sync v) = symbol_of v"
    by (rule ext, rule symbol_of_cong) (simp_all add: start_sync_def Let_def)
  then show ?thesis by (simp add: grid_ok_def start_sync_def Let_def)
qed

lemma view_clear_unfold:
  "view_clear v =
     (if v_height v \<le> 0 \<or> length (v_lines v) \<noteq> nat (v_height v) then None
      else do {
           top \<leftarrow> line_get (start_sync v) (topline (start_sync v));
           v2 \<leftarrow> line_put (start_sync v) (topline (start_sync v))
                   (top\<lparr>line_lineno := lineno_by_pos (v_text v) (v_start (start_sync v))\<rparr>);
           Some (v2\<lparr>v_lastline := topline v2,
                    v_lines := map (\<lambda>l. l\<lparr>line_width := 0, line_len := 0\<rparr>) (v_lines v2),
                    v_line := Some (topline v2),
                    v_col := 0\<rparr>)
         })"
  unfolding view_clear_def Let_def by simp

lemma view_clear_Some:
  assumes "view_clear v = Some v1"
  shows "v1 = (start_sync v)\<lparr>v_lastline := 0,
       v_lines := map (\<lambda>l. l\<lparr>line_width := 0, line_len := 0\<rparr>)
          ((v_lines v)[0 := (v_lines v ! 0)\<lparr>line_lineno := lineno_by_pos (v_text v) (v_start (start_sync v))\<rparr>]),
       v_line := Some 0, v_col := 0\<rparr>"
    and "0 < v_height v" and "length (v_lines v) = nat (v_height v)"
  using assms unfolding view_clear_unfold
  by (auto simp add: line_get_def line_put_def topline_def split: if_splits bind_splits)

lemma view_clear_ok:
  assumes "grid_ok v"
  shows "\<exists>v1. view_clear v = Some v1 \<and> draw_inv v1"
proof -
  let ?s = "start_sync v"
  let ?top = "(v_lines v ! 0)\<lparr>line_lineno := lineno_by_pos (v_text v) (v_start ?s)\<rparr>"
  let ?v2 = "?s\<lparr>v_lines := (v_lines ?s)[0 := ?top]\<rparr>"
  let ?ls = "map (\<lambda>l. l\<lparr>line_width := 0, line_len := 0\<rparr>) (v_lines ?v2)"
  let ?v1 = "?v2\<lparr>v_lastline := topline ?v2, v_lines := ?ls, v_line := Some (topline ?v2), v_col := 0\<rparr>"
  have h: "0 < v_height v" "length (v_lines v) = nat (v_height v)" "2 \<le> v_width v"
    using assms by (simp_all add: grid_ok_def)
  have gs: "grid_ok ?s" using assms by simp
  have "length (line_cells ?top) = nat (v_width ?s)"
    using grid_ok_nth [OF assms, of 0] h by simp
  then have g2: "grid_ok ?v2" using gs by (intro grid_ok_update) simp_all
  have "\<forall>l \<in> set (v_lines ?v2). length (line_cells l) = nat (v_width ?v2)"
    using g2 unfolding grid_ok_def by blast
  then have "\<forall>l \<in> set ?ls. length (line_cells l) = nat (v_width ?v2)" by simp
  then have "grid_ok (?v2\<lparr>v_lines := ?ls\<rparr>)"
    by (intro grid_ok_lines [OF g2, of ?ls]) simp_all
  then have "grid_ok ?v1"
    using grid_ok_fields [of ?v1 "?v2\<lparr>v_lines := ?ls\<rparr>"] by simp
  then have "draw_inv ?v1" using h by (simp add: draw_inv_def topline_def)
  moreover have "view_clear v = Some ?v1"
    unfolding view_clear_unfold using h by (simp add: line_get_def line_put_def topline_def)
  ultimately show ?thesis by blast
qed


lemma static_frame_simps [simp]:
  "static_frame (v\<lparr>v_start := a\<rparr>) = static_frame v"
  "static_frame (v\<lparr>v_end := a\<rparr>) = static_frame v"
  "static_frame (v\<lparr>v_start_last := a\<rparr>) = static_frame v"
  "static_frame (v\<lparr>v_start_mark := b\<rparr>) = static_frame v"
  "static_frame (v\<lparr>v_lines := ls\<rparr>) = static_frame v"
  "static_frame (v\<lparr>v_lastline := r\<rparr>) = static_frame v"
  "static_frame (v\<lparr>v_line := ln\<rparr>) = static_frame v"
  "static_frame (v\<lparr>v_col := c\<rparr>) = static_frame v"
  by (simp_all add: static_frame_def)

lemma static_frame_cursor_mem:
  "(\<And>q. map_option cursor_static (m q) = map_option cursor_static (cursor_mem v q)) \<Longrightarrow>
   static_frame (v\<lparr>cursor_mem := m\<rparr>) = static_frame v"
  by (simp add: static_frame_def)

lemma line_put_static: "line_put v r l = Some v' \<Longrightarrow> static_frame v' = static_frame v"
  by (auto simp: line_put_def split: if_splits)

text \<open>The stages of \<open>view_draw\<close>.\<close>

lemma view_draw_stages:
  assumes "view_draw L v = Some v'"
  obtains v1 d v4 v5 where
    "view_clear v = Some v1"
    "draw_loop L (size_t_of_int (v_width v1 * v_height v1)) v1 (v_start v1)
       (text_bytes_get (v_text v1) (v_start v1) (size_t_of_int (v_width v1 * v_height v1))) 0 = Some d"
    "(case v_line (fst d) of
        None \<Rightarrow> Some ((fst d)\<lparr>v_end := snd d, v_lastline := bottomline (fst d)\<rparr>)
      | Some r \<Rightarrow> do {
          l \<leftarrow> line_get (fst d) r;
          l' \<leftarrow> blank_cells l (v_col (fst d)) (v_width (fst d));
          line_put ((fst d)\<lparr>v_end := snd d, v_lastline := r\<rparr>) r l'
        }) = Some v4"
    "eof_lines v4 (line_next v4 (v_lastline v4)) = Some v5"
    "draw_cursors v5 (v_cursors v5) = Some v'"
proof -
  from assms obtain v1 where v1: "view_clear v = Some v1"
    by (auto simp add: view_draw_def split: bind_splits)
  let ?n = "size_t_of_int (v_width v1 * v_height v1)"
  from assms v1 obtain d where
    d: "draw_loop L ?n v1 (v_start v1) (text_bytes_get (v_text v1) (v_start v1) ?n) 0 = Some d"
    by (auto simp add: view_draw_def Let_def split: bind_splits)
  let ?v3 = "(fst d)\<lparr>v_end := snd d,
               v_lastline := (case v_line ((fst d)\<lparr>v_end := snd d\<rparr>) of Some r \<Rightarrow> r
                              | None \<Rightarrow> bottomline ((fst d)\<lparr>v_end := snd d\<rparr>))\<rparr>"
  from assms v1 d obtain v4 where
    v4: "(case v_line ?v3 of
              None \<Rightarrow> Some ?v3
            | Some r \<Rightarrow> do {
                l \<leftarrow> line_get ?v3 r;
                l' \<leftarrow> blank_cells l (v_col ?v3) (v_width ?v3);
                line_put ?v3 r l'
              }) = Some v4"
    by (auto simp add: view_draw_def Let_def split: bind_splits)
  from assms v1 d v4 obtain v5 where
    v5: "eof_lines v4 (line_next v4 (v_lastline v4)) = Some v5" and
    c: "draw_cursors v5 (v_cursors v5) = Some v'"
    by (auto simp add: view_draw_def Let_def split: bind_splits)
  have v4': "(case v_line (fst d) of
        None \<Rightarrow> Some ((fst d)\<lparr>v_end := snd d, v_lastline := bottomline (fst d)\<rparr>)
      | Some r \<Rightarrow> do {
          l \<leftarrow> line_get (fst d) r;
          l' \<leftarrow> blank_cells l (v_col (fst d)) (v_width (fst d));
          line_put ((fst d)\<lparr>v_end := snd d, v_lastline := r\<rparr>) r l'
        }) = Some v4"
    using v4 by (cases "v_line (fst d)") (auto simp add: bottomline_def line_get_def split: if_splits)
  show ?thesis by (rule that [OF v1 d v4' v5 c])
qed

lemma view_draw_frame:
  assumes "view_draw L v = Some v'"
  shows "static_frame v' = static_frame v"
proof -
  from assms obtain v1 d v4 v5 where
    v1: "view_clear v = Some v1" and
    d: "draw_loop L (size_t_of_int (v_width v1 * v_height v1)) v1 (v_start v1)
       (text_bytes_get (v_text v1) (v_start v1) (size_t_of_int (v_width v1 * v_height v1))) 0 = Some d" and
    v4: "(case v_line (fst d) of
        None \<Rightarrow> Some ((fst d)\<lparr>v_end := snd d, v_lastline := bottomline (fst d)\<rparr>)
      | Some r \<Rightarrow> do {
          l \<leftarrow> line_get (fst d) r;
          l' \<leftarrow> blank_cells l (v_col (fst d)) (v_width (fst d));
          line_put ((fst d)\<lparr>v_end := snd d, v_lastline := r\<rparr>) r l'
        }) = Some v4" and
    v5: "eof_lines v4 (line_next v4 (v_lastline v4)) = Some v5" and
    c: "draw_cursors v5 (v_cursors v5) = Some v'"
    by (rule view_draw_stages)
  have s1: "static_frame v1 = static_frame v"
    by (subst view_clear_Some(1) [OF v1]) simp
  have s2: "static_frame (fst d) = static_frame v1"
    using draw_loop_frame [OF d] by (rule static_frame_of_draw_frame)
  have s4: "static_frame v4 = static_frame (fst d)"
    using v4 by (auto split: option.splits bind_splits dest!: line_put_static)
  have s5: "static_frame v5 = static_frame v4"
    using eof_lines_frame [OF v5] by (intro static_frame_of_draw_frame) simp
  from draw_cursors_frame [OF c] have
    a: "v' = v5\<lparr>cursor_mem := cursor_mem v'\<rparr>" and
    b: "\<And>q. map_option cursor_static (cursor_mem v' q) = map_option cursor_static (cursor_mem v5 q)"
    by auto
  have "static_frame v' = static_frame (v5\<lparr>cursor_mem := cursor_mem v'\<rparr>)" using a by simp
  also have "\<dots> = static_frame v5" by (rule static_frame_cursor_mem) (rule b)
  finally show ?thesis using s1 s2 s4 s5 by simp
qed


lemma cursor_list_frame:
  "static_frame v' = static_frame v \<Longrightarrow>
   cursor_list (cursor_mem v') prev h cs = cursor_list (cursor_mem v) prev h cs"
  by (rule cursor_list_static) (rule static_frame_fields(12))



section \<open>Loops of the viewport functions, and the instance\<close>

lemma down_rows_sum:
  "r \<le> length (v_lines v) \<Longrightarrow>
   down_rows v (if r < length (v_lines v) then Some r else None) n =
     Some (v\<lparr>v_start := v_start v + sum_list (map line_len (take (nat n) (drop r (v_lines v))))\<rparr>)"
proof (induction "nat n" arbitrary: v r n)
  case 0
  then have "\<not> n > 0" by simp
  then show ?case using 0 by (subst down_rows.simps) (simp split: option.splits)
next
  case (Suc k)
  then have n: "n > 0" "nat (n - 1) = k" "nat n = Suc k" by simp_all
  show ?case
  proof (cases "r < length (v_lines v)")
    case False
    with Suc.prems show ?thesis by (subst down_rows.simps) simp
  next
    case True
    let ?v = "v\<lparr>v_start := v_start v + line_len (v_lines v ! r)\<rparr>"
    have IH: "down_rows ?v (if Suc r < length (v_lines ?v) then Some (Suc r) else None) (n - 1) =
       Some (?v\<lparr>v_start := v_start ?v + sum_list (map line_len (take (nat (n - 1)) (drop (Suc r) (v_lines ?v))))\<rparr>)"
      using True n by (intro Suc.hyps(1)) simp_all
    have t: "take (Suc k) (drop r (v_lines v)) = v_lines v ! r # take k (drop (Suc r) (v_lines v))"
      using True by (simp add: Cons_nth_drop_Suc [symmetric])
    show ?thesis
      using True n IH by (subst down_rows.simps) (simp add: line_get_def line_next_def t)
  qed
qed


lemma libc_ok_ascii: "libc_ok ascii_libc"
  by (auto simp add: libc_ok_def ascii_libc_def split: list.splits)

lemma grid_ok_fresh: "2 \<le> w \<Longrightarrow> 0 < h \<Longrightarrow> grid_ok (fresh_view t w h)"
  by (simp add: grid_ok_def fresh_view_def zero_line_def symbol_of_def)

lemma cursor_list_fresh: "cursor_list (cursor_mem (fresh_view t w h)) None (v_cursors (fresh_view t w h)) [0]"
  by (simp add: fresh_view_def zero_cursor_def)

section \<open>Running the model on concrete views\<close>

text \<open>The facts that evaluate a run of the model on a concrete view: the definitions of
  the functions, the equations of their loops, and two rules that keep the evaluation
  to the branch that is taken.\<close>

lemma bind_weak_cong: "x = y \<Longrightarrow> Option.bind x f = Option.bind y f"
  by simp

lemma replicate_numeral: "replicate (numeral k) x = x # replicate (pred_numeral k) x"
  by (simp add: numeral_eq_Suc)

lemmas eval_defs =
  view_draw_def view_clear_def start_sync_def view_addch_def addch_newline_def addch_default_def
  row_advance_def line_get_def line_put_def cell_get_def cell_put_def line_next_def
  topline_def bottomline_def symbol_of_def strncpy_def CELL_DATA_SIZE_def
  symbols_none_def symbols_default_def data0_def draw_cell_def c_mod_def c_div_def
  size_t_of_int_def size_t_sub_def text_bytes_get_def text_size_def EPOS_def
  isprint_def ISUTF8_def view_coord_get_def view_cursors_pos_def project_cursor_def
  flag_cell_def view_selections_get_def draw_selection_def cursor_cells_def
  SYNTAX_SYMBOL_SPACE_def SYNTAX_SYMBOL_TAB_def SYNTAX_SYMBOL_TAB_FILL_def
  SYNTAX_SYMBOL_EOL_def SYNTAX_SYMBOL_EOF_def SYNTAX_SYMBOL_LAST_def
  cell_blank_def cell_unused_def
  text_iterator_byte_get_def text_iterator_byte_prev_def
  ascii_libc_def plain_text_def zero_cell_def zero_line_def zero_cursor_def fresh_view_def
  replicate_numeral Let_def

lemmas eval_cong =
  bind_weak_cong let_weak_cong option.case_cong_weak prod.case_cong_weak

lemmas eval_loops =
  blank_cells.simps unused_cells.simps addch_tab.simps coord_row.simps coord_skip.simps
  coord_col.simps ilseq_len.simps draw_loop.simps eof_lines.simps sel_cols.simps sel_rows.simps
  draw_selections.simps draw_cursors.simps down_rows.simps up_scan.simps

text \<open>Three lines of one character each.\<close>

definition scroll_text :: string where
  "scroll_text = [CHR ''a'', CHR 0x0A, CHR ''b'', CHR 0x0A, CHR ''c'', CHR 0x0A]"

section \<open>Moving a cursor that owns a selection\<close>

text \<open>The anchor position after the orientation check of \<open>cursor_to\<close>: \<open>a\<close> and \<open>k\<close>
  are the positions of the anchor and of the cursor mark, \<open>p\<close> the new position.\<close>

definition flip_anchor :: "text_buf \<Rightarrow> filepos \<Rightarrow> filepos \<Rightarrow> filepos \<Rightarrow> filepos" where
  "flip_anchor txt p a k =
     (if p < a \<and> a < k then char_next txt a
      else if k < a \<and> a \<le> p then char_prev txt a
      else a)"

text \<open>
  Claim C1. Let the cursor at \<open>cp\<close> own the selection at \<open>sp\<close>, whose marks resolve to
  the anchor \<open>a\<close> and the cursor mark \<open>k\<close>. In the view that \<open>cursor_to(c, p)\<close>
  returns, the anchor of that selection is a mark at \<open>next_char(a)\<close> if \<open>p < a < k\<close>,
  a mark at \<open>prev_char(a)\<close> if \<open>k < a \<le> p\<close>, and the old anchor otherwise; its cursor
  mark is a mark at \<open>next_char(p)\<close> if the (possibly shifted) anchor is \<open>\<le> p\<close>, and a
  mark at \<open>p\<close> otherwise. Whether \<open>cursor_to\<close> returns is up to the redraw that ends it;
  the run below is one that goes through the redraw.
\<close>

theorem cursor_to_selection:
  assumes c: "cursor_mem v cp = Some c" and sp: "cur_sel c = Some sp"
    and s: "selection_mem v sp = Some s"
    and r: "cursor_to L cp p v = Some v'"
  shows "\<exists>s'. selection_mem v' sp = Some s' \<and>
     sel_anchor s' =
       (if p < mark_get (v_text v) (sel_anchor s) \<and>
           mark_get (v_text v) (sel_anchor s) < mark_get (v_text v) (sel_cursor s)
        then mark_set (v_text v) (char_next (v_text v) (mark_get (v_text v) (sel_anchor s)))
        else if mark_get (v_text v) (sel_cursor s) < mark_get (v_text v) (sel_anchor s) \<and>
                mark_get (v_text v) (sel_anchor s) \<le> p
        then mark_set (v_text v) (char_prev (v_text v) (mark_get (v_text v) (sel_anchor s)))
        else sel_anchor s) \<and>
     sel_cursor s' =
       mark_set (v_text v)
         (if flip_anchor (v_text v) p (mark_get (v_text v) (sel_anchor s))
               (mark_get (v_text v) (sel_cursor s)) \<le> p
          then char_next (v_text v) p else p) \<and>
     sel_prev s' = sel_prev s \<and> sel_next s' = sel_next s"
proof -
  let ?txt = "v_text v"
  let ?a = "mark_get ?txt (sel_anchor s)"
  let ?k = "mark_get ?txt (sel_cursor s)"
  let ?c1 = "c\<lparr>cur_mark := mark_set ?txt p,
                cur_lastcol := (if p \<noteq> cur_pos c then 0 else cur_lastcol c),
                cur_pos := p\<rparr>"
  let ?sa = "(if p < ?a \<and> ?a < ?k
                          then (char_next ?txt ?a,
                                s\<lparr>sel_anchor := mark_set ?txt (char_next ?txt ?a)\<rparr>)
                          else if ?k < ?a \<and> ?a \<le> p
                          then (char_prev ?txt ?a,
                                s\<lparr>sel_anchor := mark_set ?txt (char_prev ?txt ?a)\<rparr>)
                          else (?a, s))"
  let ?pos = "if fst ?sa \<le> p then char_next ?txt p else p"
  let ?s' = "(snd ?sa)\<lparr>sel_cursor := mark_set ?txt ?pos\<rparr>"
  let ?v1 = "v\<lparr>selection_mem := (selection_mem v)(sp \<mapsto> ?s')\<rparr>"
  have none: "cursor_to L cp p v = None" if "view_coord_get ?v1 ?pos = None"
    unfolding cursor_to_def Let_def using c sp s that by simp
  with r obtain gg where gg: "view_coord_get ?v1 ?pos = Some gg"
    by (cases "view_coord_get ?v1 ?pos") simp_all
  let ?v2 = "?v1\<lparr>cursor_mem := (cursor_mem ?v1)(cp \<mapsto> project_cursor ?v1 cp ?c1 gg)\<rparr>"
  have unfold: "cursor_to L cp p v = (if \<not> fst gg then Some ?v2 else view_draw L ?v2)"
    unfolding cursor_to_def Let_def using c sp s gg by simp
  have fa: "fst ?sa = flip_anchor ?txt p ?a ?k" by (simp add: flip_anchor_def)
  have sel2: "selection_mem ?v2 sp = Some ?s'" by simp
  have anchor: "sel_anchor ?s' = (if p < ?a \<and> ?a < ?k then mark_set ?txt (char_next ?txt ?a)
        else if ?k < ?a \<and> ?a \<le> p then mark_set ?txt (char_prev ?txt ?a) else sel_anchor s)"
    by simp
  have cursor: "sel_cursor ?s' = mark_set ?txt (if flip_anchor ?txt p ?a ?k \<le> p then char_next ?txt p else p)"
    unfolding fa [symmetric] by simp
  have links: "sel_prev ?s' = sel_prev s" "sel_next ?s' = sel_next s" by simp_all
  have "selection_mem v' sp = Some ?s'"
  proof (cases "fst gg")
    case False
    with unfold r have "v' = ?v2" by simp
    with sel2 show ?thesis by simp
  next
    case True
    with unfold r have d: "view_draw L ?v2 = Some v'" by simp
    have "selection_mem v' = selection_mem ?v2"
      by (rule static_frame_fields(11) [OF view_draw_frame [OF d]])
    with sel2 show ?thesis by simp
  qed
  with anchor cursor links show ?thesis by blast
qed

text \<open>The scenario of the specification on a drawn view: anchor 5, cursor mark 6, move
  to byte 2, giving anchor 6 and cursor mark 2. Byte 2 is visible, so \<open>cursor_to\<close> ends
  in a redraw.\<close>

lemma selecting_run:
  "map_option (\<lambda>v'. ())
     (view_draw ascii_libc selecting_view \<bind> cursor_to ascii_libc 0 2) = Some ()"
  by (simp add: selecting_view_def cursor_to_def eval_defs eval_loops
       cong: eval_cong)

theorem cursor_to_selection_witness:
  "\<exists>v c s v' s'. view_draw ascii_libc selecting_view = Some v \<and>
     cursor_mem v 0 = Some c \<and> cur_sel c = Some 0 \<and> selection_mem v 0 = Some s \<and>
     mark_get (v_text v) (sel_anchor s) = 5 \<and> mark_get (v_text v) (sel_cursor s) = 6 \<and>
     cursor_to ascii_libc 0 2 v = Some v' \<and>
     selection_mem v' 0 = Some s' \<and> sel_anchor s' = 6 \<and> sel_cursor s' = 2"
proof -
  let ?c = "zero_cursor\<lparr>cur_pos := 5, cur_mark := 5, cur_sel := Some 0\<rparr>"
  let ?s = "\<lparr>sel_anchor = 5, sel_cursor = 6, sel_prev = None, sel_next = None\<rparr>"
  from selecting_run obtain v v' where
    d: "view_draw ascii_libc selecting_view = Some v" and
    r: "cursor_to ascii_libc 0 2 v = Some v'"
    by (auto simp add: bind_eq_Some_conv)
  note f = static_frame_fields [OF view_draw_frame [OF d]]
  have t: "v_text v = plain_text ''abcdefgh''"
    using f(1) by (simp add: selecting_view_def fresh_view_def)
  have hs: "selection_mem v 0 = Some ?s" using f(11) by (simp add: selecting_view_def)
  have "map_option cursor_static (cursor_mem v 0) = Some (cursor_static ?c)"
    using f(12) [of 0] by (simp add: selecting_view_def)
  then obtain c where hc: "cursor_mem v 0 = Some c" and "cursor_static c = cursor_static ?c"
    by auto
  then have "cur_sel (cursor_static c) = cur_sel (cursor_static ?c)" by simp
  then have hsel: "cur_sel c = Some 0" by (simp add: cursor_static_def)
  from cursor_to_selection [OF hc hsel hs r] obtain s' where
    s': "selection_mem v' 0 = Some s'" and
    a: "sel_anchor s' =
       (if 2 < mark_get (v_text v) (sel_anchor ?s) \<and>
           mark_get (v_text v) (sel_anchor ?s) < mark_get (v_text v) (sel_cursor ?s)
        then mark_set (v_text v) (char_next (v_text v) (mark_get (v_text v) (sel_anchor ?s)))
        else if mark_get (v_text v) (sel_cursor ?s) < mark_get (v_text v) (sel_anchor ?s) \<and>
                mark_get (v_text v) (sel_anchor ?s) \<le> 2
        then mark_set (v_text v) (char_prev (v_text v) (mark_get (v_text v) (sel_anchor ?s)))
        else sel_anchor ?s)" and
    k: "sel_cursor s' =
       mark_set (v_text v)
         (if flip_anchor (v_text v) 2 (mark_get (v_text v) (sel_anchor ?s))
               (mark_get (v_text v) (sel_cursor ?s)) \<le> 2
          then char_next (v_text v) 2 else 2)"
    by blast
  have "sel_anchor s' = 6" using a by (simp add: t plain_text_def)
  moreover have "sel_cursor s' = 2" using k by (simp add: t plain_text_def flip_anchor_def)
  moreover have "mark_get (v_text v) (sel_anchor ?s) = 5" "mark_get (v_text v) (sel_cursor ?s) = 6"
    by (simp_all add: t plain_text_def)
  ultimately show ?thesis using d hc hsel hs r s' by blast
qed

section \<open>From a screen column to a byte position\<close>

text \<open>What the loops of \<open>cursor_set\<close> compute: the bytes of the rows above the target
  row, the column after each of the two snaps, and the bytes of the cells before a
  column.\<close>

lemma set_row_sum:
  assumes "ln < length (v_lines v)" "r \<le> ln"
  shows "set_row v ln (Some r) pos row =
     Some (pos + sum_list (map line_len (take (ln - r) (drop r (v_lines v)))), row + int (ln - r))"
  using assms
proof (induction "ln - r" arbitrary: r pos row)
  case 0
  then have "r = ln" by simp
  then show ?case by (subst set_row.simps) simp
next
  case (Suc k)
  then have r: "r < ln" "r < length (v_lines v)" "Suc r < length (v_lines v)" "Suc r \<le> ln"
    "k = ln - Suc r" by simp_all
  have t: "take (ln - r) (drop r (v_lines v)) = v_lines v ! r # take (ln - Suc r) (drop (Suc r) (v_lines v))"
    using r Suc.hyps(2) by (simp add: Cons_nth_drop_Suc [symmetric] flip: Suc.hyps(2))
  have "set_row v ln (Some (Suc r)) (pos + line_len (v_lines v ! r)) (row + 1) =
     Some (pos + line_len (v_lines v ! r) +
             sum_list (map line_len (take (ln - Suc r) (drop (Suc r) (v_lines v)))),
           row + 1 + int (ln - Suc r))"
    by (rule Suc.hyps(1) [OF r(5) Suc.prems(1) r(4)])
  then show ?case
    using r by (subst set_row.simps) (simp add: line_get_def line_next_def t)
qed

lemma snap_left_spec:
  assumes "snap_left l col0 = Some col1"
  shows "col1 \<le> col0 \<and>
     (\<forall>i. col1 < i \<and> i \<le> col0 \<longrightarrow> (\<exists>c. cell_get l i = Some c \<and> cell_len c = 0)) \<and>
     (col1 \<le> 0 \<or> (\<exists>c. cell_get l col1 = Some c \<and> cell_len c \<noteq> 0))"
  using assms
proof (induction l col0 rule: snap_left.induct)
  case (1 l col)
  note unfold = snap_left.simps [of l col]
  show ?case
  proof (cases "col > 0")
    case False
    with "1.prems" unfold show ?thesis by auto
  next
    case True
    then obtain c where c: "cell_get l col = Some c"
      using "1.prems" unfold by (cases "cell_get l col") simp_all
    show ?thesis
    proof (cases "cell_len c = 0")
      case False
      with True c "1.prems" unfold show ?thesis by auto
    next
      case z: True
      with True c "1.prems" unfold have rec: "snap_left l (col - 1) = Some col1" by simp
      from "1.IH" [OF True c z rec] have
        a: "col1 \<le> col - 1" and
        b: "\<And>i. col1 < i \<Longrightarrow> i \<le> col - 1 \<Longrightarrow> \<exists>c. cell_get l i = Some c \<and> cell_len c = 0" and
        d: "col1 \<le> 0 \<or> (\<exists>c. cell_get l col1 = Some c \<and> cell_len c \<noteq> 0)"
        by auto
      have "\<exists>c. cell_get l i = Some c \<and> cell_len c = 0" if "col1 < i" "i \<le> col" for i
      proof (cases "i = col")
        case True
        with c z show ?thesis by simp
      next
        case False
        with that show ?thesis by (intro b) simp_all
      qed
      with a d show ?thesis by auto
    qed
  qed
qed

lemma snap_right_spec:
  assumes "snap_right l col1 = Some col"
  shows "col1 \<le> col \<and>
     (\<forall>i. col1 \<le> i \<and> i < col \<longrightarrow> (\<exists>c. cell_get l i = Some c \<and> cell_istab c)) \<and>
     (line_width l \<le> col \<or> (\<exists>c. cell_get l col = Some c \<and> \<not> cell_istab c))"
  using assms
proof (induction l col1 rule: snap_right.induct)
  case (1 l c1)
  note unfold = snap_right.simps [of l c1]
  show ?case
  proof (cases "c1 < line_width l")
    case False
    with "1.prems" unfold show ?thesis by auto
  next
    case True
    then obtain c where c: "cell_get l c1 = Some c"
      using "1.prems" unfold by (cases "cell_get l c1") simp_all
    show ?thesis
    proof (cases "cell_istab c")
      case False
      with True c "1.prems" unfold show ?thesis by auto
    next
      case t: True
      with True c "1.prems" unfold have rec: "snap_right l (c1 + 1) = Some col" by simp
      from "1.IH" [OF True c t rec] have
        a: "c1 + 1 \<le> col" and
        b: "\<And>i. c1 + 1 \<le> i \<Longrightarrow> i < col \<Longrightarrow> \<exists>c. cell_get l i = Some c \<and> cell_istab c" and
        d: "line_width l \<le> col \<or> (\<exists>c. cell_get l col = Some c \<and> \<not> cell_istab c)"
        by auto
      have "\<exists>c. cell_get l i = Some c \<and> cell_istab c" if "c1 \<le> i" "i < col" for i
      proof (cases "i = c1")
        case True
        with c t show ?thesis by simp
      next
        case False
        with that show ?thesis by (intro b) simp_all
      qed
      with a d show ?thesis by auto
    qed
  qed
qed

lemma sum_len_spec:
  assumes "sum_len l i col pos = Some p" "0 \<le> i"
  shows "p = pos + sum_list (map cell_len (take (nat col - nat i) (drop (nat i) (line_cells l))))"
  using assms
proof (induction l i col pos rule: sum_len.induct)
  case (1 l i col pos)
  note unfold = sum_len.simps [of l i col pos]
  show ?case
  proof (cases "i < col")
    case False
    with "1.prems" unfold show ?thesis by simp
  next
    case True
    then obtain c where c: "cell_get l i = Some c"
      using "1.prems" unfold by (cases "cell_get l i") simp_all
    with True "1.prems" unfold have rec: "sum_len l (i + 1) col (pos + cell_len c) = Some p" by simp
    from c "1.prems"(2) have i: "nat i < length (line_cells l)" "c = line_cells l ! nat i"
      by (auto simp add: cell_get_def split: if_splits)
    have n: "nat (i + 1) = Suc (nat i)" "nat col - nat i = Suc (nat col - Suc (nat i))"
      using "1.prems"(2) True by simp_all
    have "p = pos + cell_len c +
        sum_list (map cell_len (take (nat col - nat (i + 1)) (drop (nat (i + 1)) (line_cells l))))"
      using "1.IH" [OF True c rec] "1.prems"(2) by simp
    then show ?thesis
      unfolding n(1) by (subst n(2)) (simp add: i Cons_nth_drop_Suc [symmetric])
  qed
qed

text \<open>
  Claim C2, as the code has it. \<open>cursor_set(cursor, line, col)\<close> takes \<open>view.start\<close>
  plus the \<open>len\<close> of the rows before \<open>line\<close>; moves \<open>col\<close> to the left while it is
  positive and its cell has \<open>len = 0\<close>; then moves it to the right, while it is below
  the \<open>width\<close> of the row, over every cell whose tab flag is set, the cell at the head
  of a tab (\<open>len = 1\<close>) as well as the cells that fill it; adds the \<open>len\<close> of the
  cells in \<open>[0, col)\<close>; stores column, row and line in the cursor and moves it to that
  position with \<open>cursor_to\<close>.
\<close>

theorem cursor_set_spec:
  assumes "cursor_set L cp ln col0 v = Some (pos, v')"
  shows "\<exists>l c col1 col.
     line_get v ln = Some l \<and> cursor_mem v cp = Some c \<and>
     col1 \<le> col0 \<and>
     (\<forall>i. col1 < i \<and> i \<le> col0 \<longrightarrow> (\<exists>x. cell_get l i = Some x \<and> cell_len x = 0)) \<and>
     (col1 \<le> 0 \<or> (\<exists>x. cell_get l col1 = Some x \<and> cell_len x \<noteq> 0)) \<and>
     col1 \<le> col \<and>
     (\<forall>i. col1 \<le> i \<and> i < col \<longrightarrow> (\<exists>x. cell_get l i = Some x \<and> cell_istab x)) \<and>
     (line_width l \<le> col \<or> (\<exists>x. cell_get l col = Some x \<and> \<not> cell_istab x)) \<and>
     pos = v_start v + sum_list (map line_len (take ln (v_lines v))) +
             sum_list (map cell_len (take (nat col) (line_cells l))) \<and>
     cursor_to L cp pos
       (v\<lparr>cursor_mem := (cursor_mem v)(cp \<mapsto> c\<lparr>cur_col := col, cur_row := int ln,
                                                  cur_line := Some ln\<rparr>)\<rparr>) = Some v'"
proof -
  from assms obtain c p row col where
    c: "cursor_mem v cp = Some c" and
    sp: "cursor_set_pos v ln col0 = Some (p, row, col)" and
    to: "cursor_to L cp p
       (v\<lparr>cursor_mem := (cursor_mem v)(cp \<mapsto> c\<lparr>cur_col := col, cur_row := row,
                                                  cur_line := Some ln\<rparr>)\<rparr>) = Some v'" and
    pos: "pos = p"
    by (auto simp add: cursor_set_def Let_def bind_eq_Some_conv)
  from sp obtain p0 row0 l col1 where
    sr: "set_row v ln (Some (topline v)) (v_start v) 0 = Some (p0, row0)" and
    l: "line_get v ln = Some l" and
    sl: "snap_left l col0 = Some col1" and
    sr2: "snap_right l col1 = Some col" and
    sm: "sum_len l 0 col p0 = Some p" and row: "row = row0"
    by (auto simp add: cursor_set_pos_def bind_eq_Some_conv)
  from l have ln: "ln < length (v_lines v)" by (simp add: line_get_def split: if_splits)
  from set_row_sum [OF ln, of 0 "v_start v" 0] sr have
    p0: "p0 = v_start v + sum_list (map line_len (take ln (v_lines v)))" and row0: "row0 = int ln"
    by (simp_all add: topline_def)
  from sum_len_spec [OF sm] have
    p: "p = p0 + sum_list (map cell_len (take (nat col) (line_cells l)))" by simp
  note a = snap_left_spec [OF sl] and b = snap_right_spec [OF sr2]
  show ?thesis
    using l c a b p p0 to unfolding pos row row0 by blast
qed

text \<open>The claim's wording of the second snap: to the right over the cells that fill a
  tab, which are the cells of a tab with \<open>len = 0\<close>.\<close>

function claimed_snap_right :: "line \<Rightarrow> int \<Rightarrow> int option" where
  "claimed_snap_right l col =
     (if col < line_width l then do {
        c \<leftarrow> cell_get l col;
        if cell_istab c \<and> cell_len c = 0 then claimed_snap_right l (col + 1) else Some col
      } else Some col)"
  by pat_completeness auto
termination
  by (relation "measure (\<lambda>(l, col). nat (line_width l - col))") auto

declare claimed_snap_right.simps [simp del]

definition claimed_cursor_set_pos :: "view \<Rightarrow> line_ptr \<Rightarrow> int \<Rightarrow> (filepos \<times> int \<times> int) option" where
  "claimed_cursor_set_pos v ln col0 = do {
     pr \<leftarrow> set_row v ln (Some (topline v)) (v_start v) 0;
     l \<leftarrow> line_get v ln;
     col1 \<leftarrow> snap_left l col0;
     col \<leftarrow> claimed_snap_right l col1;
     pos \<leftarrow> sum_len l 0 col (fst pr);
     Some (pos, snd pr, col)
   }"

text \<open>A letter, a tab and a letter.\<close>

definition tab_text :: string where
  "tab_text = [CHR ''a'', CHR 0x09, CHR ''b'']"

lemma tab_run:
  "do { v \<leftarrow> view_draw ascii_libc (fresh_view (plain_text tab_text) 10 1);
        r \<leftarrow> cursor_set ascii_libc 0 0 1 v;
        Some (fst r) } = Some 2"
  by (simp add: tab_text_def cursor_set_def cursor_set_pos_def cursor_to_def
       set_row.simps snap_left.simps snap_right.simps sum_len.simps
       eval_defs eval_loops cong: eval_cong)

theorem cursor_set_spec_witness:
  "\<exists>v v'. view_draw ascii_libc (fresh_view (plain_text tab_text) 10 1) = Some v \<and>
     cursor_set ascii_libc 0 0 1 v = Some (2, v') \<and>
     (\<exists>l col. line_get v 0 = Some l \<and>
        (\<forall>i. 1 \<le> i \<and> i < col \<longrightarrow> (\<exists>x. cell_get l i = Some x \<and> cell_istab x)) \<and>
        2 = v_start v + sum_list (map line_len (take 0 (v_lines v))) +
              sum_list (map cell_len (take (nat col) (line_cells l))))"
proof -
  from tab_run obtain v r where
    v: "view_draw ascii_libc (fresh_view (plain_text tab_text) 10 1) = Some v" and
    r: "cursor_set ascii_libc 0 0 1 v = Some r" and p: "fst r = 2"
    by (auto simp add: bind_eq_Some_conv)
  have r': "cursor_set ascii_libc 0 0 1 v = Some (2, snd r)" using r p by (cases r) simp
  from cursor_set_spec [OF r'] obtain l c col1 col where
    l: "line_get v 0 = Some l" and
    a: "col1 \<le> 1" "\<forall>i. col1 < i \<and> i \<le> 1 \<longrightarrow> (\<exists>x. cell_get l i = Some x \<and> cell_len x = 0)"
       "col1 \<le> 0 \<or> (\<exists>x. cell_get l col1 = Some x \<and> cell_len x \<noteq> 0)" and
    b: "col1 \<le> col" "\<forall>i. col1 \<le> i \<and> i < col \<longrightarrow> (\<exists>x. cell_get l i = Some x \<and> cell_istab x)" and
    s: "2 = v_start v + sum_list (map line_len (take 0 (v_lines v))) +
              sum_list (map cell_len (take (nat col) (line_cells l)))"
    by blast
  from a(1) b(2) have "\<forall>i. 1 \<le> i \<and> i < col \<longrightarrow> (\<exists>x. cell_get l i = Some x \<and> cell_istab x)"
    by auto
  with v r' l s show ?thesis by blast
qed

text \<open>The claim as stated fails on the head of a tab. In the drawn row of \<open>tab_text\<close>
  column 1 is the head of the tab (\<open>len = 1\<close>, tab flag set) and column 8 is the second
  letter. \<open>cursor_set\<close> for column 1 moves over the head and the fill cells and returns
  byte 2, the letter after the tab; moving over the fill cells only stays on column 1
  and gives byte 1, the tab itself.\<close>

theorem cursor_set_counterexample:
  "do { v \<leftarrow> view_draw ascii_libc (fresh_view (plain_text tab_text) 10 1);
        r \<leftarrow> cursor_set ascii_libc 0 0 1 v;
        s \<leftarrow> claimed_cursor_set_pos v 0 1;
        Some (map (\<lambda>c. (cell_len c, cell_istab c)) (take 9 (line_cells (v_lines v ! 0))),
              fst r, map_option cur_col (cursor_mem (snd r) 0), fst s, snd (snd s)) }
     = Some ([(1, False), (1, True), (0, True), (0, True), (0, True), (0, True), (0, True),
              (0, True), (1, False)], 2, Some 8, 1, 1)"
  by (simp add: tab_text_def cursor_set_def cursor_set_pos_def claimed_cursor_set_pos_def
       cursor_to_def set_row.simps snap_left.simps snap_right.simps claimed_snap_right.simps
       sum_len.simps eval_defs eval_loops cong: eval_cong)

section \<open>Drawing a tab\<close>















section \<open>Scrolling down\<close>

text \<open>
  Claim C4. \<open>view_viewport_down(view, n)\<close> returns false and leaves the view as it is
  exactly when \<open>end\<close> is the size of the text. Otherwise it sets \<open>start\<close> to \<open>end\<close>
  when \<open>n \<ge> height\<close>, and to \<open>start\<close> plus the sum of the \<open>len\<close> of the first \<open>n\<close>
  rows when \<open>n < height\<close>, redraws the view from there and returns true with the view
  that the redraw leaves; it returns exactly when that redraw does. (The loop over the
  rows starts at \<open>topline\<close>: in a view without any row there is no such row to read.)
\<close>

theorem view_viewport_down_spec:
  "view_viewport_down L v n =
     (if v_end v = text_size (v_text v) then Some (False, v)
      else if n < v_height v \<and> 0 < n \<and> v_lines v = [] then None
      else map_option (Pair True)
             (view_draw L (v\<lparr>v_start :=
                (if n \<ge> v_height v then v_end v
                 else v_start v + sum_list (map line_len (take (nat n) (v_lines v))))\<rparr>)))"
proof (cases "v_end v = text_size (v_text v)")
  case True
  then show ?thesis by (simp add: view_viewport_down_def)
next
  case ne: False
  show ?thesis
  proof (cases "n \<ge> v_height v")
    case True
    with ne show ?thesis
      by (cases "view_draw L (v\<lparr>v_start := v_end v\<rparr>)") (simp_all add: view_viewport_down_def)
  next
    case lt: False
    show ?thesis
    proof (cases "v_lines v = []")
      case True
      show ?thesis
      proof (cases "0 < n")
        case True
        with \<open>v_lines v = []\<close> have "down_rows v (Some (topline v)) n = None"
          by (subst down_rows.simps) (simp add: line_get_def topline_def)
        with ne lt True \<open>v_lines v = []\<close> show ?thesis by (simp add: view_viewport_down_def)
      next
        case False
        then have "down_rows v (Some (topline v)) n = Some v"
          by (subst down_rows.simps) simp
        with ne lt False show ?thesis
          by (cases "view_draw L v") (simp_all add: view_viewport_down_def)
      qed
    next
      case False
      then have "down_rows v (Some (topline v)) n =
          Some (v\<lparr>v_start := v_start v + sum_list (map line_len (take (nat n) (v_lines v)))\<rparr>)"
        using down_rows_sum [of 0 v n] by (simp add: topline_def)
      with ne lt False show ?thesis
        by (cases "view_draw L
              (v\<lparr>v_start := v_start v + sum_list (map line_len (take (nat n) (v_lines v)))\<rparr>)")
           (simp_all add: view_viewport_down_def)
    qed
  qed
qed

text \<open>Two runs: the three lines in a viewport of two rows and two columns, where
  scrolling down by one row moves \<open>start\<close> over the two bytes of the first row; and a
  text that ends inside the viewport, where the view stays as it is.\<close>

theorem view_viewport_down_spec_witness:
  "do { v \<leftarrow> view_draw ascii_libc (fresh_view (plain_text scroll_text) 2 2);
        r \<leftarrow> view_viewport_down ascii_libc v 1;
        Some (v_start v, v_end v, map line_len (v_lines v), fst r, v_start (snd r)) }
     = Some (0, 4, [2, 2], True, 2) \<and>
   do { v \<leftarrow> view_draw ascii_libc (fresh_view (plain_text ''a'') 2 2);
        r \<leftarrow> view_viewport_down ascii_libc v 1;
        Some (v_end v, fst r, snd r = v) }
     = Some (1, False, True)"
  by (simp add: view_viewport_down_spec scroll_text_def eval_defs eval_loops
       cong: eval_cong)

section \<open>Moving a cursor and the viewport with it\<close>





section \<open>Drawing a NUL byte\<close>

text \<open>\<open>cell->data[0] + 64\<close> for the NUL byte.\<close>

lemma char64: "char_of (64 :: nat) = CHR ''@''"
  by (simp add: char_of_def bit_0)

text \<open>A text with a NUL byte between two letters.\<close>

definition nul_text :: string where
  "nul_text = [CHR ''a'', CHR 0x00, CHR ''b'']"

text \<open>
  Claim C6, as the code has it. For a NUL byte (\<open>mbrtowc\<close> returns 0) the loop of
  \<open>view_draw\<close> builds a cell of \<open>len\<close> 1 and \<open>width\<close> 0 whose data is the NUL
  character. That is not the cell that reaches the grid: for \<open>view_addch\<close> NUL is a
  non-printable ASCII byte, so whenever it accepts the cell it has replaced it by the
  cell \<open>^@\<close> of \<open>len\<close> 1 and \<open>width\<close> 2, and has put that cell and one unused
  continuation cell into the two columns before the new draw position.
\<close>

theorem nul_cell_placed:
  assumes nul: "rm ! 0 = CHR 0x00"
    and add: "view_addch v (draw_cell L MB_NUL rm) = Some (ok, v', cell')"
  shows "draw_cell L MB_NUL rm =
           \<lparr>cell_data = [], cell_len = 1, cell_width = 0, cell_istab = False\<rparr> \<and>
         (ok \<longrightarrow>
            cell' = \<lparr>cell_data = ''^@'', cell_len = 1, cell_width = 2, cell_istab = False\<rparr> \<and>
            (\<exists>r l. v_line v' = Some r \<and> line_get v' r = Some l \<and>
                  cell_get l (v_col v' - 2) = Some cell' \<and>
                  cell_get l (v_col v' - 1) = Some cell_unused))"
proof (cases "v_line v")
  case None
  have "draw_cell L MB_NUL rm = \<lparr>cell_data = [], cell_len = 1, cell_width = 0, cell_istab = False\<rparr>"
    using nul by (simp add: draw_cell_def)
  moreover have "\<not> ok" using add None by (simp add: view_addch_def)
  ultimately show ?thesis by simp
next
  case r0: (Some r0)
  let ?nul = "\<lparr>cell_data = [], cell_len = 1, cell_width = 0, cell_istab = False\<rparr>"
  let ?caret = "\<lparr>cell_data = ''^@'', cell_len = 1, cell_width = 2, cell_istab = False\<rparr>"
  have dc: "draw_cell L MB_NUL rm = ?nul" using nul by (simp add: draw_cell_def)
  have va: "view_addch v ?nul = do { l \<leftarrow> line_get v r0; addch_default v ?nul r0 (line_lineno l) }"
    using r0 by (simp add: view_addch_def data0_def Let_def)
  from add obtain l0 where l0: "line_get v r0 = Some l0"
    and def: "addch_default v ?nul r0 (line_lineno l0) = Some (ok, v', cell')"
    unfolding dc va by (auto split: bind_splits)
  define caret where
    "caret = \<lparr>cell_data = ''^@'', cell_len = 1, cell_width = 2, cell_istab = False\<rparr>"
  have c1: "(if (of_char (data0 ?nul) :: nat) < 128 \<and> \<not> isprint (data0 ?nul)
             then \<lparr>cell_data = [CHR ''^'', char_of ((of_char (data0 ?nul) :: nat) + 64)],
                   cell_len = 1, cell_width = 2, cell_istab = False\<rparr>
             else ?nul) = caret"
    by (simp add: caret_def data0_def isprint_def char64)
  have cf: "data0 caret \<noteq> CHR '' ''" "cell_width caret = 2" "cell_len caret = 1"
    by (simp_all add: caret_def data0_def)
  define v1o where "v1o = (if v_col v + cell_width caret > v_width v
            then do {
              l \<leftarrow> line_get v r0;
              l' \<leftarrow> blank_cells l (v_col v) (v_width v);
              v' \<leftarrow> line_put v r0 l';
              Some (v'\<lparr>v_line := line_next v' r0, v_col := 0\<rparr>) }
            else Some v)"
  have unf: "addch_default v ?nul r0 (line_lineno l0) = do {
      v1 \<leftarrow> v1o;
      (case v_line v1 of
        None \<Rightarrow> Some (False, v1, caret)
      | Some r1 \<Rightarrow> do {
          l \<leftarrow> line_get v1 r1;
          l1 \<leftarrow> cell_put (l\<lparr>line_width := line_width l + cell_width caret,
                              line_len := line_len l + cell_len caret,
                              line_lineno := line_lineno l0\<rparr>) (v_col v1) caret;
          (l2, col2) \<leftarrow> unused_cells l1 (v_col v1 + 1) 1 (cell_width caret);
          v2 \<leftarrow> line_put v1 r1 l2;
          Some (True, v2\<lparr>v_col := col2\<rparr>, caret)
        }) }"
    unfolding addch_default_def Let_def c1 v1o_def by (simp only: cf(1) if_False Option.bind.simps)
  from def obtain v1 where v1: "v1o = Some v1" unfolding unf by (cases v1o) simp_all
  show ?thesis
  proof (cases "v_line v1")
    case None
    with def v1 show ?thesis unfolding unf using dc by simp
  next
    case (Some r1)
    with def v1 obtain l l1 l2 col2 v2 where
      l: "line_get v1 r1 = Some l" and
      l1: "cell_put (l\<lparr>line_width := line_width l + cell_width caret,
                       line_len := line_len l + cell_len caret,
                       line_lineno := line_lineno l0\<rparr>) (v_col v1) caret = Some l1" and
      u: "unused_cells l1 (v_col v1 + 1) 1 2 = Some (l2, col2)" and
      v2: "line_put v1 r1 l2 = Some v2" and
      res: "ok" "v' = v2\<lparr>v_col := col2\<rparr>" "cell' = caret"
      unfolding unf cf by (auto simp add: bind_eq_Some_conv)
    have u2: "unused_cells l' c 2 2 = Some (l', c)" for l' c
      by (subst unused_cells.simps) simp
    from u have "cell_put l1 (v_col v1 + 1) cell_unused \<bind> (\<lambda>l'. Some (l', v_col v1 + 2)) = Some (l2, col2)"
      by (subst (asm) unused_cells.simps) (simp add: u2 add.commute)
    then have l2: "cell_put l1 (v_col v1 + 1) cell_unused = Some l2" and col2: "col2 = v_col v1 + 2"
      by (auto split: bind_splits)
    have c0: "0 \<le> v_col v1" "nat (v_col v1) < length (line_cells l1)"
      and g1: "line_cells l1 ! nat (v_col v1) = caret"
      using l1 by (auto simp add: cell_put_def split: if_splits)
    have c1: "nat (v_col v1 + 1) < length (line_cells l1)" and
      l2': "l2 = l1\<lparr>line_cells := (line_cells l1)[nat (v_col v1 + 1) := cell_unused]\<rparr>"
      using l2 by (auto simp add: cell_put_def split: if_splits)
    have v2': "r1 < length (v_lines v1)" "v2 = v1\<lparr>v_lines := (v_lines v1)[r1 := l2]\<rparr>"
      using v2 by (auto simp add: line_put_def split: if_splits)
    have line: "v_line v' = Some r1" "line_get v' r1 = Some l2" "v_col v' = v_col v1 + 2"
      using res(2) v2' Some col2 by (simp_all add: line_get_def)
    have n: "nat (v_col v1 + 1) = Suc (nat (v_col v1))" using c0 by simp
    have e: "v_col v' - 2 = v_col v1" "v_col v' - 1 = v_col v1 + 1" using line(3) by simp_all
    have q1: "cell_get l2 (v_col v' - 2) = Some cell'"
      using c0 c1 g1 res(3) unfolding l2' e by (simp add: cell_get_def n)
    have q2: "cell_get l2 (v_col v' - 1) = Some cell_unused"
      using c0 c1 unfolding l2' e by (simp add: cell_get_def)
    show ?thesis using dc res(3) line(1,2) q1 q2 unfolding caret_def by blast
  qed
qed

text \<open>The NUL byte of \<open>nul_text\<close>, drawn into the cleared view of four columns.\<close>

theorem nul_cell_placed_witness:
  "\<exists>v v'. view_clear (fresh_view (plain_text nul_text) 4 1) = Some v \<and>
     [CHR 0x00, CHR ''b''] ! 0 = CHR 0x00 \<and>
     view_addch v (draw_cell ascii_libc MB_NUL [CHR 0x00, CHR ''b'']) =
       Some (True, v', \<lparr>cell_data = ''^@'', cell_len = 1, cell_width = 2, cell_istab = False\<rparr>) \<and>
     (\<exists>r l. v_line v' = Some r \<and> line_get v' r = Some l \<and>
        cell_get l (v_col v' - 2) =
          Some \<lparr>cell_data = ''^@'', cell_len = 1, cell_width = 2, cell_istab = False\<rparr> \<and>
        cell_get l (v_col v' - 1) = Some cell_unused)"
proof -
  have run: "map_option (\<lambda>r. fst (snd r))
      (view_clear (fresh_view (plain_text nul_text) 4 1) \<bind>
       (\<lambda>v. map_option (\<lambda>a. (v, fst a, snd (snd a))) (view_addch v (draw_cell ascii_libc MB_NUL [CHR 0x00, CHR ''b''])))) = Some True"
    by (simp add: nul_text_def eval_defs eval_loops char64 cong: eval_cong)
  then obtain v ok v' cell' where
    v: "view_clear (fresh_view (plain_text nul_text) 4 1) = Some v" and
    a: "view_addch v (draw_cell ascii_libc MB_NUL [CHR 0x00, CHR ''b'']) = Some (ok, v', cell')" and
    ok: "ok"
    by (auto simp add: bind_eq_Some_conv)
  have n: "[CHR 0x00, CHR ''b''] ! 0 = CHR 0x00" by simp
  from nul_cell_placed [OF n a] ok v a show ?thesis by auto
qed

text \<open>The claim as stated fails. In the drawn row of \<open>nul_text\<close> the cell that stands
  for the NUL byte (the cell of \<open>len\<close> 1 in column 1) is \<open>^@\<close> with width 2, and the
  row is 4 columns wide for its 3 bytes. The cell of width 0 behind it is the unused
  continuation cell (\<open>len\<close> 0) that every character of two columns gets.\<close>

theorem nul_cell_counterexample:
  "do { v \<leftarrow> view_draw ascii_libc (fresh_view (plain_text nul_text) 4 1);
        Some (line_len (v_lines v ! 0), line_width (v_lines v ! 0),
              map (\<lambda>c. (cell_data c, cell_len c, cell_width c)) (line_cells (v_lines v ! 0))) }
     = Some (3, 4, [(''a'', 1, 1), (''^@'', 1, 2), ([], 0, 0), (''b'', 1, 1)])"
  by (simp add: nul_text_def eval_defs eval_loops char64 cong: eval_cong)

section \<open>Disposing of a cursor\<close>

text \<open>The list of the cursors only depends on the links of the cursors in it.\<close>

lemma cursor_list_local:
  "(\<And>q. q \<in> set ps \<Longrightarrow> map_option cursor_links (m' q) = map_option cursor_links (m q)) \<Longrightarrow>
   cursor_list m' prev h ps = cursor_list m prev h ps"
proof (induction ps arbitrary: prev h)
  case Nil
  show ?case by simp
next
  case (Cons p ps)
  have e: "map_option cursor_links (m' p) = map_option cursor_links (m p)"
    by (rule Cons.prems) simp
  have IH: "cursor_list m' pr hh ps = cursor_list m pr hh ps" for pr hh
    by (rule Cons.IH) (simp add: Cons.prems)
  show ?case
  proof (cases "m p")
    case None
    with e show ?thesis by simp
  next
    case (Some c)
    with e obtain c' where c': "m' p = Some c'" "cursor_links c' = cursor_links c"
      by (cases "m' p") auto
    with Some IH show ?thesis by (simp add: cursor_links_def)
  qed
qed

text \<open>The links of a cursor of a well-formed list lead to other cursors of the list.\<close>

lemma cursor_list_links:
  assumes "cursor_list m prev h cs" "distinct cs" "cp \<in> set cs" "m cp = Some c"
  shows "(hd cs = cp \<and> cur_prev c = prev) \<or>
         (hd cs \<noteq> cp \<and> (\<exists>q \<in> set cs. q \<noteq> cp \<and> cur_prev c = Some q))"
    and "cur_next c = None \<or> (\<exists>q \<in> set cs. q \<noteq> cp \<and> q \<noteq> hd cs \<and> cur_next c = Some q)"
  using assms
proof (induction cs arbitrary: prev h)
  case Nil
  { case 1 then show ?case by simp }
  { case 2 then show ?case by simp }
next
  case (Cons p ps)
  {
    case 1
    from "1.prems"(1) obtain pc where pc: "m p = Some pc" "cur_prev pc = prev"
      and L: "cursor_list m (Some p) (cur_next pc) ps"
      by (auto split: option.splits)
    show ?case
    proof (cases "p = cp")
      case True
      with pc "1.prems"(4) show ?thesis by simp
    next
      case False
      with "1.prems" have in_ps: "cp \<in> set ps" and d: "distinct ps" and pn: "p \<notin> set ps" by simp_all
      from Cons.IH(1) [OF L d in_ps "1.prems"(4)] have
        "(hd ps = cp \<and> cur_prev c = Some p) \<or>
         (hd ps \<noteq> cp \<and> (\<exists>q \<in> set ps. q \<noteq> cp \<and> cur_prev c = Some q))" .
      with False show ?thesis by auto
    qed
  }
  {
    case 2
    from "2.prems"(1) obtain pc where pc: "m p = Some pc" "cur_prev pc = prev"
      and L: "cursor_list m (Some p) (cur_next pc) ps"
      by (auto split: option.splits)
    show ?case
    proof (cases "p = cp")
      case True
      with pc "2.prems"(4) have c: "c = pc" by simp
      show ?thesis
      proof (cases ps)
        case Nil
        with L c show ?thesis by simp
      next
        case (Cons n ns)
        with L c have "cur_next c = Some n" by simp
        moreover from Cons "2.prems"(2) True have "n \<noteq> cp" "n \<noteq> p" "n \<in> set (p # ps)" by auto
        ultimately show ?thesis by auto
      qed
    next
      case False
      with "2.prems" have in_ps: "cp \<in> set ps" and d: "distinct ps" and pn: "p \<notin> set ps" by simp_all
      from Cons.IH(2) [OF L d in_ps "2.prems"(4)] have
        "cur_next c = None \<or> (\<exists>q \<in> set ps. q \<noteq> cp \<and> q \<noteq> hd ps \<and> cur_next c = Some q)" .
      with pn show ?thesis by auto
    qed
  }
qed

text \<open>The cursor store after \<open>view_cursors_free\<close> has taken the cursor \<open>c\<close> at \<open>cp\<close>
  out of the list: the neighbours are linked to each other and \<open>cp\<close> is freed.\<close>

definition unlink ::
  "(cursor_ptr \<Rightarrow> cursor option) \<Rightarrow> cursor_ptr \<Rightarrow> cursor \<Rightarrow> cursor_ptr \<Rightarrow> cursor option" where
  "unlink m cp c q =
     (if q = cp then None
      else map_option
             (\<lambda>x. x\<lparr>cur_next := (if cur_prev c = Some q then cur_next c else cur_next x),
                    cur_prev := (if cur_next c = Some q then cur_prev c else cur_prev x)\<rparr>)
             (m q))"

lemma unlink_list:
  assumes "cursor_list m prev h cs" "distinct cs" "cp \<in> set cs" "m cp = Some c"
    "\<And>q. prev = Some q \<Longrightarrow> q \<notin> set cs"
  shows "cursor_list (unlink m cp c) prev (if h = Some cp then cur_next c else h) (remove1 cp cs)"
  using assms
proof (induction cs arbitrary: prev h)
  case Nil
  then show ?case by simp
next
  case (Cons p ps)
  from Cons.prems(1) obtain pc where h: "h = Some p" and pc: "m p = Some pc" "cur_prev pc = prev"
    and L: "cursor_list m (Some p) (cur_next pc) ps"
    by (auto split: option.splits)
  from Cons.prems(2) have d: "distinct ps" and pn: "p \<notin> set ps" by simp_all
  show ?case
  proof (cases "p = cp")
    case True
    with pc Cons.prems(4) have c: "c = pc" by simp
    have goal: "cursor_list (unlink m cp c) prev (cur_next c) ps"
    proof (cases ps)
      case Nil
      with L c show ?thesis by simp
    next
      case (Cons n ns)
      with L c obtain nc where n: "cur_next c = Some n" "m n = Some nc" "cur_prev nc = Some cp"
        and L': "cursor_list m (Some n) (cur_next nc) ns"
        using True by (auto split: option.splits)
      from Cons d pn True have ne: "n \<noteq> cp" "n \<notin> set ns" "cp \<notin> set ns" by auto
      have pv: "cur_prev c \<noteq> Some q" if "q \<in> set ps" for q
        using that Cons.prems(5) [of q] c pc(2) by auto
      have "unlink m cp c n = Some (nc\<lparr>cur_next := cur_next nc, cur_prev := prev\<rparr>)"
        using n ne pv [of n] Cons c pc(2) by (simp add: unlink_def)
      moreover have "cursor_list (unlink m cp c) (Some n) (cur_next nc) ns =
                     cursor_list m (Some n) (cur_next nc) ns"
      proof (rule cursor_list_local)
        fix q assume q: "q \<in> set ns"
        with ne n Cons have "q \<noteq> cp" "cur_next c \<noteq> Some q" by auto
        moreover have "cur_prev c \<noteq> Some q" using pv [of q] q Cons by simp
        ultimately show "map_option cursor_links (unlink m cp c q) = map_option cursor_links (m q)"
          by (cases "m q") (simp_all add: unlink_def cursor_links_def)
      qed
      ultimately show ?thesis using Cons n L' by simp
    qed
    with True h show ?thesis by simp
  next
    case False
    with Cons.prems(3) have in_ps: "cp \<in> set ps" by simp
    have IH: "cursor_list (unlink m cp c) (Some p)
        (if cur_next pc = Some cp then cur_next c else cur_next pc) (remove1 cp ps)"
      by (rule Cons.IH [OF L d in_ps Cons.prems(4)]) (use pn in simp)
    note lk = cursor_list_links [OF L d in_ps Cons.prems(4)]
    have nx: "cur_next c \<noteq> Some p" using lk(2) pn by auto
    have pv: "cur_prev c = Some p \<longleftrightarrow> cur_next pc = Some cp"
    proof (cases ps)
      case Nil
      with in_ps show ?thesis by simp
    next
      case (Cons n ns)
      with L have "cur_next pc = Some n" by simp
      with lk(1) Cons pn show ?thesis by auto
    qed
    have "unlink m cp c p =
        Some (pc\<lparr>cur_next := (if cur_next pc = Some cp then cur_next c else cur_next pc),
                 cur_prev := prev\<rparr>)"
      using False pc nx pv by (simp add: unlink_def)
    with IH False h show ?thesis by simp
  qed
qed

lemma view_cursors_free_fields:
  assumes "view_cursors_free v (Some cp) = Some v2" "cursor_mem v cp = Some c"
    "cur_prev c \<noteq> Some cp" "cur_next c \<noteq> Some cp"
  shows "cursor_mem v2 = unlink (cursor_mem v) cp c"
    and "v_cursors v2 = (if v_cursors v = Some cp then cur_next c else v_cursors v)"
    and "v_cursor v2 = (if v_cursor v = Some cp
                        then (case cur_next c of Some n \<Rightarrow> Some n | None \<Rightarrow> cur_prev c)
                        else v_cursor v)"
    and "selection_mem v2 = selection_mem v"
proof -
  define v1 where "v1 = (case cur_prev c of None \<Rightarrow> v
      | Some q \<Rightarrow> v\<lparr>cursor_mem := (cursor_mem v)(q := map_option (\<lambda>x. x\<lparr>cur_next := cur_next c\<rparr>) (cursor_mem v q))\<rparr>)"
  define v2' where "v2' = (case cur_next c of None \<Rightarrow> v1
      | Some q \<Rightarrow> v1\<lparr>cursor_mem := (cursor_mem v1)(q := map_option (\<lambda>x. x\<lparr>cur_prev := cur_prev c\<rparr>) (cursor_mem v1 q))\<rparr>)"
  have s1: "(case cur_prev c of
                   None \<Rightarrow> Some v
                 | Some q \<Rightarrow> do {
                     cq \<leftarrow> cursor_mem v q;
                     Some (v\<lparr>cursor_mem := (cursor_mem v)(q \<mapsto> cq\<lparr>cur_next := cur_next c\<rparr>)\<rparr>)
                   }) = Some v1"
    using assms(1,2) unfolding v1_def
    by (cases "cur_prev c") (auto simp add: view_cursors_free_def bind_eq_Some_conv)
  have c1: "cursor_mem v1 cp = Some c"
    using assms(2,3) unfolding v1_def by (cases "cur_prev c") auto
  have s2: "(case cur_next c of
                   None \<Rightarrow> Some v1
                 | Some q \<Rightarrow> do {
                     cq \<leftarrow> cursor_mem v1 q;
                     Some (v1\<lparr>cursor_mem := (cursor_mem v1)(q \<mapsto> cq\<lparr>cur_prev := cur_prev c\<rparr>)\<rparr>)
                   }) = Some v2'"
    using assms(1,2) s1 c1 unfolding v2'_def
    by (cases "cur_next c") (auto simp add: view_cursors_free_def bind_eq_Some_conv)
  have c2: "cursor_mem v2' cp = Some c"
    using c1 assms(4) unfolding v2'_def by (cases "cur_next c") auto
  have res: "v2 = (let v3 = (if v_cursors v2' = Some cp then v2'\<lparr>v_cursors := cur_next c\<rparr> else v2');
                    v4 = (if v_cursor v3 = Some cp
                    then v3\<lparr>v_cursor := (case cur_next c of Some n \<Rightarrow> Some n | None \<Rightarrow> cur_prev c)\<rparr>
                    else v3)
                 in v4\<lparr>cursor_mem := (cursor_mem v4)(cp := None)\<rparr>)"
    using assms(1,2) s1 c1 s2 c2 by (auto simp add: view_cursors_free_def Let_def)
  have f1: "v_cursors v1 = v_cursors v" "v_cursor v1 = v_cursor v" "selection_mem v1 = selection_mem v"
    unfolding v1_def by (cases "cur_prev c"; simp)+
  have f2: "v_cursors v2' = v_cursors v" "v_cursor v2' = v_cursor v" "selection_mem v2' = selection_mem v"
    unfolding v2'_def using f1 by (cases "cur_next c"; simp)+
  show "v_cursors v2 = (if v_cursors v = Some cp then cur_next c else v_cursors v)"
    unfolding res using f2 by (simp add: Let_def)
  show "v_cursor v2 = (if v_cursor v = Some cp
                        then (case cur_next c of Some n \<Rightarrow> Some n | None \<Rightarrow> cur_prev c)
                        else v_cursor v)"
    unfolding res using f2 by (simp add: Let_def)
  show "selection_mem v2 = selection_mem v"
    unfolding res using f2 by (simp add: Let_def)
  have m: "cursor_mem v2 = (cursor_mem v2')(cp := None)"
    unfolding res by (simp add: Let_def)
  show "cursor_mem v2 = unlink (cursor_mem v) cp c"
  proof
    fix q
    show "cursor_mem v2 q = unlink (cursor_mem v) cp c q"
      unfolding m v2'_def v1_def unlink_def
      by (cases "cur_prev c"; cases "cur_next c"; cases "cursor_mem v q") auto
  qed
qed

lemma unref_cursor_links [simp]:
  "cursor_links (unref_cursor sp s c) = cursor_links c"
  "cur_next (unref_cursor sp s c) = cur_next c"
  by (simp_all add: unref_cursor_def cursor_links_def)

lemma sel_unref_frame:
  assumes "sel_unref v ss cp = Some v'"
  shows "v' = v\<lparr>cursor_mem := cursor_mem v'\<rparr> \<and>
         (\<forall>q. map_option cursor_links (cursor_mem v' q) = map_option cursor_links (cursor_mem v q))"
proof (rule sel_unref.raw_induct
    [where P = "\<lambda>v ss cp v'. v' = v\<lparr>cursor_mem := cursor_mem v'\<rparr> \<and>
         (\<forall>q. map_option cursor_links (cursor_mem v' q) = map_option cursor_links (cursor_mem v q))",
     OF _ assms], goal_cases)
  case (1 f v ss cp v')
  note IH = "1"(1) and body = "1"(2)
  show ?case
  proof (cases cp)
    case None
    with body show ?thesis by simp
  next
    case (Some p)
    with body obtain c where
      c: "cursor_mem v p = Some c" and
      rec: "f (v\<lparr>cursor_mem := (cursor_mem v)(p \<mapsto> unref_cursor (fst ss) (snd ss) c)\<rparr>) ss (cur_next c) = Some v'"
      by (auto simp add: bind_eq_Some_conv)
    let ?v = "v\<lparr>cursor_mem := (cursor_mem v)(p \<mapsto> unref_cursor (fst ss) (snd ss) c)\<rparr>"
    from IH [OF rec] have a: "v' = ?v\<lparr>cursor_mem := cursor_mem v'\<rparr>" and
      b: "\<And>q. map_option cursor_links (cursor_mem v' q) = map_option cursor_links (cursor_mem ?v q)"
      by auto
    have "v' = v\<lparr>cursor_mem := cursor_mem v'\<rparr>" using a by simp
    moreover have "map_option cursor_links (cursor_mem v' q) = map_option cursor_links (cursor_mem v q)" for q
      using b [of q] c by (cases "q = p") simp_all
    ultimately show ?thesis by blast
  qed
qed

lemma view_selections_free_fields:
  assumes "view_selections_free v spo = Some v1"
  shows "v_cursors v1 = v_cursors v" and "v_cursor v1 = v_cursor v"
    and "map_option cursor_links (cursor_mem v1 q) = map_option cursor_links (cursor_mem v q)"
    and "spo = Some sp \<Longrightarrow> selection_mem v1 sp = None"
proof -
  have "v_cursors v1 = v_cursors v \<and> v_cursor v1 = v_cursor v \<and>
    map_option cursor_links (cursor_mem v1 q) = map_option cursor_links (cursor_mem v q) \<and>
    (spo = Some sp \<longrightarrow> selection_mem v1 sp = None)"
  proof (cases spo)
    case None
    with assms show ?thesis by (simp add: view_selections_free_def)
  next
    case (Some p)
    with assms obtain s va s1 vb s2 v4 where
      s: "selection_mem v p = Some s" and
      va: "(case sel_prev s of
                   None \<Rightarrow> Some v
                 | Some q \<Rightarrow> do {
                     sq \<leftarrow> selection_mem v q;
                     Some (v\<lparr>selection_mem := (selection_mem v)(q \<mapsto> sq\<lparr>sel_next := sel_next s\<rparr>)\<rparr>)
                   }) = Some va" and
      s1: "selection_mem va p = Some s1" and
      vb: "(case sel_next s1 of
                   None \<Rightarrow> Some va
                 | Some q \<Rightarrow> do {
                     sq \<leftarrow> selection_mem va q;
                     Some (va\<lparr>selection_mem := (selection_mem va)(q \<mapsto> sq\<lparr>sel_prev := sel_prev s1\<rparr>)\<rparr>)
                   }) = Some vb" and
      s2: "selection_mem vb p = Some s2" and
      v4: "sel_unref (if v_selections vb = Some p then vb\<lparr>v_selections := sel_next s2\<rparr> else vb)
             (p, s2) (v_cursors (if v_selections vb = Some p then vb\<lparr>v_selections := sel_next s2\<rparr> else vb)) = Some v4" and
      v1: "v1 = v4\<lparr>selection_mem := (selection_mem v4)(p := None)\<rparr>"
      by (auto simp add: view_selections_free_def Let_def bind_eq_Some_conv)
    have fa: "v_cursors va = v_cursors v" "v_cursor va = v_cursor v" "cursor_mem va = cursor_mem v"
      using va by (cases "sel_prev s"; auto simp add: bind_eq_Some_conv)+
    have fb: "v_cursors vb = v_cursors va" "v_cursor vb = v_cursor va" "cursor_mem vb = cursor_mem va"
      using vb by (cases "sel_next s1"; auto simp add: bind_eq_Some_conv)+
    let ?v3 = "if v_selections vb = Some p then vb\<lparr>v_selections := sel_next s2\<rparr> else vb"
    have f3: "v_cursors ?v3 = v_cursors vb" "v_cursor ?v3 = v_cursor vb" "cursor_mem ?v3 = cursor_mem vb"
      by simp_all
    from sel_unref_frame [OF v4] have
      a: "v4 = ?v3\<lparr>cursor_mem := cursor_mem v4\<rparr>" and
      b: "map_option cursor_links (cursor_mem v4 q) = map_option cursor_links (cursor_mem ?v3 q)"
      by auto
    have f4: "v_cursors v4 = v_cursors ?v3" "v_cursor v4 = v_cursor ?v3"
      by (subst a, simp)+
    show ?thesis
      using Some v1 fa fb f3 f4 b by simp
  qed
  then show "v_cursors v1 = v_cursors v" and "v_cursor v1 = v_cursor v"
    and "map_option cursor_links (cursor_mem v1 q) = map_option cursor_links (cursor_mem v q)"
    and "spo = Some sp \<Longrightarrow> selection_mem v1 sp = None"
    by simp_all
qed

text \<open>A list that starts with a cursor without predecessor has no cursor twice.\<close>

lemma cursor_list_nth_prev:
  assumes "cursor_list m prev h cs" "i < length cs"
  shows "\<exists>c. m (cs ! i) = Some c \<and> cur_prev c = (if i = 0 then prev else Some (cs ! (i - 1)))"
  using assms
proof (induction cs arbitrary: prev h i)
  case Nil
  then show ?case by simp
next
  case (Cons p ps)
  from Cons.prems(1) obtain pc where pc: "m p = Some pc" "cur_prev pc = prev"
    and L: "cursor_list m (Some p) (cur_next pc) ps"
    by (auto split: option.splits)
  show ?case
  proof (cases i)
    case 0
    with pc show ?thesis by simp
  next
    case (Suc k)
    with Cons.prems(2) have k: "k < length ps" by simp
    from Cons.IH [OF L k] obtain c where
      c: "m (ps ! k) = Some c" "cur_prev c = (if k = 0 then Some p else Some (ps ! (k - 1)))"
      by blast
    show ?thesis using Suc c by (cases k) simp_all
  qed
qed

lemma cursor_list_distinct:
  assumes "cursor_list m None h cs"
  shows "distinct cs"
proof -
  have "cs ! i \<noteq> cs ! j" if "i < j" "j < length cs" for i j
    using that
  proof (induction i arbitrary: j)
    case 0
    from 0 have "0 < length cs" by auto
    from cursor_list_nth_prev [OF assms this] obtain c where
      c: "m (cs ! 0) = Some c" "cur_prev c = None" by auto
    from cursor_list_nth_prev [OF assms "0.prems"(2)] 0 obtain c' where
      c': "m (cs ! j) = Some c'" "cur_prev c' = Some (cs ! (j - 1))" by auto
    from c c' show ?case by auto
  next
    case (Suc i)
    then obtain k where j: "j = Suc k" "i < k" "k < length cs" by (cases j) auto
    from Suc.prems have "Suc i < length cs" by auto
    from cursor_list_nth_prev [OF assms this] obtain c where
      c: "m (cs ! Suc i) = Some c" "cur_prev c = Some (cs ! i)" by auto
    from cursor_list_nth_prev [OF assms Suc.prems(2)] j obtain c' where
      c': "m (cs ! j) = Some c'" "cur_prev c' = Some (cs ! k)" by auto
    from Suc.IH [OF j(2,3)] c c' show ?case by auto
  qed
  then show ?thesis by (auto simp add: distinct_conv_nth nat_neq_iff)
qed

text \<open>
  Claim C7. In a view whose cursors form a well-formed doubly linked list \<open>cs\<close>, let
  \<open>c\<close> be one of them. If \<open>c\<close> is the only one, \<open>view_cursors_dispose(c)\<close> leaves the
  view as it is. Otherwise, in the view it returns, the selection that \<open>c\<close> owned (if
  any) is freed, \<open>c\<close> is freed and the cursors form the well-formed list \<open>cs\<close> without
  \<open>c\<close>, which is not empty; and if \<open>c\<close> was the primary cursor, the primary cursor is
  now \<open>c.next\<close> if there is one and \<open>c.prev\<close> otherwise. So a view with at least one
  cursor keeps at least one.
\<close>

theorem view_cursors_dispose_spec:
  assumes wf: "cursor_list (cursor_mem v) None (v_cursors v) cs"
    and cp: "cp \<in> set cs" and c: "cursor_mem v cp = Some c"
    and r: "view_cursors_dispose L v (Some cp) = Some v'"
  shows "if length cs = 1 then v' = v
         else cursor_list (cursor_mem v') None (v_cursors v') (remove1 cp cs) \<and>
              remove1 cp cs \<noteq> [] \<and> cursor_mem v' cp = None \<and>
              (\<forall>sp. cur_sel c = Some sp \<longrightarrow> selection_mem v' sp = None) \<and>
              v_cursor v' =
                (if v_cursor v = Some cp
                 then (case cur_next c of Some n \<Rightarrow> Some n | None \<Rightarrow> cur_prev c)
                 else v_cursor v)"
proof -
  from wf have d: "distinct cs" by (rule cursor_list_distinct)
  from cp obtain h rest where cs: "cs = h # rest" by (cases cs) auto
  with wf obtain hc where h: "v_cursors v = Some h" "cursor_mem v h = Some hc"
    and L: "cursor_list (cursor_mem v) (Some h) (cur_next hc) rest"
    by (auto split: option.splits)
  show ?thesis
  proof (cases rest)
    case Nil
    with L have "cur_next hc = None" by simp
    with r c h have "v' = v" by (simp add: view_cursors_dispose_def)
    with Nil cs show ?thesis by simp
  next
    case (Cons n ns)
    with L have "cur_next hc \<noteq> None" by simp
    with r c h obtain v1 v2 where
      v1: "view_selections_free v (cur_sel c) = Some v1" and
      v2: "view_cursors_free v1 (Some cp) = Some v2" and
      dr: "view_draw L v2 = Some v'"
      by (auto simp add: view_cursors_dispose_def bind_eq_Some_conv)
    note f1 = view_selections_free_fields [OF v1]
    have wf1: "cursor_list (cursor_mem v1) None (v_cursors v1) cs"
      using wf cursor_list_cong [of "cursor_mem v1" "cursor_mem v" None "v_cursors v" cs] f1(1,3)
      by simp
    from f1(3) [of cp] c obtain c1 where c1: "cursor_mem v1 cp = Some c1"
      and lk: "cursor_links c1 = cursor_links c"
      by (cases "cursor_mem v1 cp") auto
    from lk have lk': "cur_prev c1 = cur_prev c" "cur_next c1 = cur_next c"
      by (simp_all add: cursor_links_def)
    note ll = cursor_list_links [OF wf1 d cp c1]
    have np: "cur_prev c1 \<noteq> Some cp" "cur_next c1 \<noteq> Some cp" using ll by auto
    note f2 = view_cursors_free_fields [OF v2 c1 np]
    have "cursor_list (unlink (cursor_mem v1) cp c1) None
            (if v_cursors v1 = Some cp then cur_next c1 else v_cursors v1) (remove1 cp cs)"
      by (rule unlink_list [OF wf1 d cp c1]) simp
    then have wf2: "cursor_list (cursor_mem v2) None (v_cursors v2) (remove1 cp cs)"
      using f2(1,2) by simp
    note fr = view_draw_frame [OF dr]
    note sf = static_frame_fields [OF fr]
    have wf': "cursor_list (cursor_mem v') None (v_cursors v') (remove1 cp cs)"
      using wf2 cursor_list_frame [OF fr, of None "v_cursors v'" "remove1 cp cs"] sf(9) by simp
    have "cursor_mem v2 cp = None" using f2(1) by (simp add: unlink_def)
    with sf(12) [of cp] have gone: "cursor_mem v' cp = None" by simp
    have sel: "selection_mem v' sp = None" if "cur_sel c = Some sp" for sp
      using f1(4) [OF that] f2(4) sf(11) by simp
    have prim: "v_cursor v' =
                (if v_cursor v = Some cp
                 then (case cur_next c of Some n \<Rightarrow> Some n | None \<Rightarrow> cur_prev c)
                 else v_cursor v)"
      unfolding sf(5) f2(3) f1(2) lk' ..
    have ne: "remove1 cp cs \<noteq> []" using cs Cons by (cases "h = cp") simp_all
    have "length cs \<noteq> 1" using cs Cons by simp
    with wf' ne gone sel prim show ?thesis by simp
  qed
qed

text \<open>A view with two cursors, as two calls of \<open>view_cursors_new\<close> leave them: the
  cursor at address 1 is the head of the list and the primary cursor, the cursor at
  address 0 follows it. The cursor at 1 owns the selection at address 0.\<close>

definition two_cursor_view :: view where
  "two_cursor_view =
     (fresh_view (plain_text ''abc'') 10 1)
       \<lparr>v_cursor := Some 1, v_cursors := Some 1, v_selections := Some 0,
        cursor_mem := [1 \<mapsto> zero_cursor\<lparr>cur_next := Some 0, cur_sel := Some 0\<rparr>,
                       0 \<mapsto> zero_cursor\<lparr>cur_prev := Some 1\<rparr>],
        selection_mem := [0 \<mapsto> \<lparr>sel_anchor = 0, sel_cursor = 1, sel_prev = None, sel_next = None\<rparr>]\<rparr>"

lemma two_cursor_run:
  "map_option (\<lambda>v'. ()) (view_cursors_dispose ascii_libc two_cursor_view (Some 1)) = Some ()"
  by (simp add: two_cursor_view_def view_cursors_dispose_def view_cursors_free_def
       view_selections_free_def unref_cursor_def sel_unref.simps
       eval_defs eval_loops cong: eval_cong)

theorem view_cursors_dispose_spec_witness:
  "\<exists>v'. cursor_list (cursor_mem two_cursor_view) None (v_cursors two_cursor_view) [1, 0] \<and>
     (1 :: cursor_ptr) \<in> set [1, 0] \<and>
     cursor_mem two_cursor_view 1 = Some (zero_cursor\<lparr>cur_next := Some 0, cur_sel := Some 0\<rparr>) \<and>
     view_cursors_dispose ascii_libc two_cursor_view (Some 1) = Some v' \<and>
     cursor_list (cursor_mem v') None (v_cursors v') [0] \<and> cursor_mem v' 1 = None \<and>
     selection_mem v' 0 = None \<and> v_cursor v' = Some 0"
proof -
  let ?c = "zero_cursor\<lparr>cur_next := Some 0, cur_sel := Some 0\<rparr>"
  have h1: "cursor_list (cursor_mem two_cursor_view) None (v_cursors two_cursor_view) [1, 0]"
    by (simp add: two_cursor_view_def zero_cursor_def)
  have h3: "(1 :: cursor_ptr) \<in> set [1, 0]" by simp
  have h4: "cursor_mem two_cursor_view 1 = Some ?c" by (simp add: two_cursor_view_def)
  from two_cursor_run obtain v' where
    r: "view_cursors_dispose ascii_libc two_cursor_view (Some 1) = Some v'"
    by auto
  have p: "v_cursor two_cursor_view = Some 1" by (simp add: two_cursor_view_def)
  from view_cursors_dispose_spec [OF h1 h3 h4 r] have
    "cursor_list (cursor_mem v') None (v_cursors v') [0]" "cursor_mem v' 1 = None"
    "selection_mem v' 0 = None" "v_cursor v' = Some 0"
    by (simp_all add: p zero_cursor_def)
  with h1 h3 h4 r show ?thesis by blast
qed

text \<open>\<open>view_cursors_free\<close> keeps the primary cursor at the head of the list.\<close>

lemma view_cursors_free_primary_head:
  assumes wf: "cursor_list (cursor_mem v) None (v_cursors v) cs" and cp: "cp \<in> set cs"
    and ph: "v_cursor v = v_cursors v"
    and fr: "view_cursors_free v (Some cp) = Some v2"
  shows "v_cursor v2 = v_cursors v2"
proof -
  from wf have d: "distinct cs" by (rule cursor_list_distinct)
  from fr obtain c where c: "cursor_mem v cp = Some c"
    by (auto simp add: view_cursors_free_def bind_eq_Some_conv)
  note ll = cursor_list_links [OF wf d cp c]
  have np: "cur_prev c \<noteq> Some cp" "cur_next c \<noteq> Some cp" using ll by auto
  note f = view_cursors_free_fields [OF fr c np]
  show ?thesis
  proof (cases "v_cursors v = Some cp")
    case True
    from cp wf have "v_cursors v = Some (hd cs)" by (cases cs) auto
    with True ll(1) have "cur_prev c = None" by auto
    with True ph f(2,3) show ?thesis by (cases "cur_next c") simp_all
  next
    case False
    with ph f(2,3) show ?thesis by simp
  qed
qed

section \<open>Scrolling up and back down\<close>










section \<open>Symbols: reading back the flags\<close>

definition symbol_choice :: "view \<Rightarrow> int \<Rightarrow> nat \<Rightarrow> symbol_ptr" where
  "symbol_choice v flags i =
     (if flags AND push_bit i 1 \<noteq> 0
      then (if (case v_syntax v of None \<Rightarrow> False | Some s \<Rightarrow> syn_symbols s i \<noteq> None)
            then Syntax_symbols i else Symbols_default i)
      else Symbols_none i)"

definition symbols_step :: "int \<Rightarrow> nat \<Rightarrow> view \<Rightarrow> view" where
  "symbols_step flags i v = v\<lparr>v_symbols := (v_symbols v)(i := symbol_choice v flags i)\<rparr>"

lemma symbol_choice_step:
  "symbol_choice (symbols_step flags i v) flags k = symbol_choice v flags k"
  by (simp add: symbol_choice_def symbols_step_def)

lemma symbol_choice_none: "(symbol_choice v flags i \<noteq> Symbols_none i) = bit flags i"
  unfolding symbol_choice_def bit_iff_and_push_bit_not_eq_0 [of flags i]
  by (simp del: push_bit_of_1)

lemma symbols_set_fold:
  "v_symbols (fold (symbols_step flags) is v) k =
     (if k \<in> set is then symbol_choice v flags k else v_symbols v k)"
proof (induction "is" arbitrary: v)
  case Nil
  show ?case by simp
next
  case (Cons i "is")
  have "v_symbols (fold (symbols_step flags) (i # is) v) k =
        v_symbols (fold (symbols_step flags) is (symbols_step flags i v)) k"
    by simp
  also have "\<dots> = (if k \<in> set is then symbol_choice (symbols_step flags i v) flags k
                    else v_symbols (symbols_step flags i v) k)"
    by (rule Cons.IH)
  also have "\<dots> = (if k \<in> set (i # is) then symbol_choice v flags k else v_symbols v k)"
    by (simp add: symbol_choice_step) (simp add: symbols_step_def)
  finally show ?case .
qed

lemma bit_flag: "bit (push_bit i (1::int)) k = (k = i)"
  by (auto simp add: bit_exp_iff)

lemma symbols_get_fold:
  "bit (fold (\<lambda>i flags. if P i then flags OR push_bit i 1 else flags) is (acc :: int)) k
     = (bit acc k \<or> (k \<in> set is \<and> P k))"
proof (induction "is" arbitrary: acc)
  case Nil
  show ?case by simp
next
  case (Cons i "is")
  have "bit (if P i then acc OR push_bit i 1 else acc) k = (bit acc k \<or> (k = i \<and> P k))"
    using bit_flag [of i k] by (auto simp add: bit_or_iff simp del: push_bit_of_1)
  then show ?case
    unfolding fold_simps Cons.IH by auto
qed

lemma symbols_get_set: "view_symbols_get (view_symbols_set v flags) = take_bit 5 flags"
proof (rule bit_eqI)
  fix k
  have set_eq: "view_symbols_set v flags = fold (symbols_step flags) [0..<SYNTAX_SYMBOL_LAST] v"
    unfolding view_symbols_set_def symbols_step_def symbol_choice_def ..
  have "k < 5 \<Longrightarrow> (v_symbols (view_symbols_set v flags) k \<noteq> Symbols_none k) = bit flags k"
    unfolding set_eq
    by (simp add: symbols_set_fold SYNTAX_SYMBOL_LAST_def symbol_choice_none)
  then show "bit (view_symbols_get (view_symbols_set v flags)) k = bit (take_bit 5 flags) k"
    unfolding view_symbols_get_def symbols_get_fold
    by (auto simp add: SYNTAX_SYMBOL_LAST_def bit_take_bit_iff)
qed

text \<open>
  Claim C10. For every flags bitmask that uses only the five symbol bits (space, tab,
  tab fill, end of line, end of file), that is \<open>0 \<le> flags < 32\<close>,
  \<open>view_symbols_set\<close> followed by \<open>view_symbols_get\<close> returns exactly \<open>flags\<close>,
  whatever syntax is attached to the view.
\<close>

theorem view_symbols_roundtrip:
  "0 \<le> flags \<Longrightarrow> flags < 32 \<Longrightarrow> view_symbols_get (view_symbols_set v flags) = flags"
  by (simp add: symbols_get_set take_bit_int_eq_self)

theorem view_symbols_roundtrip_witness:
  "(0::int) \<le> 5 \<and> (5::int) < 32 \<and>
   view_symbols_get (view_symbols_set
     ((fresh_view (plain_text ''ab'') 2 1)
        \<lparr>v_syntax := Some \<lparr>syn_symbols = (\<lambda>i. if i = 0 then Some ''.'' else None)\<rparr>\<rparr>) 5) = 5"
proof -
  have h: "(0::int) \<le> 5" "(5::int) < 32" by simp_all
  show ?thesis using h view_symbols_roundtrip [OF h] by blast
qed

section \<open>Selections: swapping the endpoints\<close>

text \<open>
  Claim C9. Swapping the endpoints of a selection twice gives the selection back: its
  anchor mark and its cursor mark are what they were before the two swaps.
\<close>

theorem view_selections_swap_involution:
  "view_selections_swap (view_selections_swap s) = s"
  by (simp add: view_selections_swap_def)

end
